theory Spec2Isabelle
  imports Complex_Main
begin

text \<open>
  A shallow embedding of the paginated document model of the typewriter editor
  (src/src/main.js): the text layout engine \<open>wrapText\<close>, the overflow controller
  \<open>checkPageOverflow\<close>, the plain-text export \<open>getEditorText\<close>, the PNG export
  \<open>savePNG\<close> and the measuring pass of \<open>createDocumentCanvas\<close>.

  JavaScript strings are sequences of UTF-16 code units; \<open>word[i]\<close> and \<open>length\<close>
  count code units. A \<^typ>\<open>string\<close> here is the list of those units, one \<^typ>\<open>char\<close>
  per unit, so the model covers the code units below 256.
\<close>

section \<open>Strings\<close>

text \<open>
  The white space that \<open>trim\<close> and \<open>trimEnd\<close> strip: tab, line feed, vertical tab,
  form feed, carriage return, space and no-break space.
\<close>

definition is_ws :: "char \<Rightarrow> bool" where
  "is_ws c = (c \<in> set [CHR 0x09, CHR 0x0A, CHR 0x0B, CHR 0x0C, CHR 0x0D, CHR '' '', CHR 0xA0])"

definition trimEnd :: "string \<Rightarrow> string" where
  "trimEnd s = rev (dropWhile is_ws (rev s))"

definition trim :: "string \<Rightarrow> string" where
  "trim s = trimEnd (dropWhile is_ws s)"

text \<open>The decimal digits of a number, as string concatenation with a number writes them.\<close>

fun string_of_nat :: "nat \<Rightarrow> string" where
  "string_of_nat n =
     (if n < 10 then [''0123456789'' ! n]
      else string_of_nat (n div 10) @ [''0123456789'' ! (n mod 10)])"

declare string_of_nat.simps [simp del]

section \<open>Text layout engine: \<open>wrapText\<close> (main.js, lines 1126-1173)\<close>

text \<open>
  The drawing context enters \<open>wrapText\<close> only through \<open>ctx.measureText(s).width\<close>,
  so the context is modelled by that function, with widths in any linearly ordered
  type.
\<close>

text \<open>\<open>text.split(' ')\<close>: cut at every single space, keeping empty pieces.\<close>

fun split_acc :: "string \<Rightarrow> string \<Rightarrow> string list" where
  "split_acc cur [] = [cur]"
| "split_acc cur (c # cs) =
     (if c = CHR '' '' then cur # split_acc [] cs else split_acc (cur @ [c]) cs)"

definition split_space :: "string \<Rightarrow> string list" where
  "split_space str = split_acc [] str"

text \<open>
  The inner \<open>for\<close> loop that breaks a word wider than \<open>maxWidth\<close> into chunks. The
  state is \<open>(lines, chunk)\<close>.
\<close>

fun break_word ::
  "(string \<Rightarrow> 'w::linorder) \<Rightarrow> 'w \<Rightarrow> string \<Rightarrow> string list \<times> string \<Rightarrow> string list \<times> string"
where
  "break_word m maxWidth [] (lines, chunk) = (lines, chunk)"
| "break_word m maxWidth (c # cs) (lines, chunk) =
     (let testChunk = chunk @ [c] in
      if m testChunk > maxWidth \<and> chunk \<noteq> []
      then break_word m maxWidth cs (lines @ [chunk], [c])
      else break_word m maxWidth cs (lines, testChunk))"

text \<open>The body of \<open>words.forEach\<close>; the state is \<open>(lines, currentLine)\<close>.\<close>

definition wrap_word ::
  "(string \<Rightarrow> 'w::linorder) \<Rightarrow> 'w \<Rightarrow> string list \<times> string \<Rightarrow> string \<Rightarrow> string list \<times> string"
where
  "wrap_word m maxWidth st word =
     (case st of (lines, currentLine) \<Rightarrow>
        if m word > maxWidth then
          break_word m maxWidth word
            (if currentLine \<noteq> [] then lines @ [currentLine] else lines, [])
        else
          (let testLine = (if currentLine \<noteq> [] then currentLine @ '' '' @ word else word) in
           if m testLine > maxWidth \<and> currentLine \<noteq> []
           then (lines @ [currentLine], word)
           else (lines, testLine)))"

definition wrapText :: "(string \<Rightarrow> 'w::linorder) \<Rightarrow> string \<Rightarrow> 'w \<Rightarrow> string list" where
  "wrapText m str maxWidth =
     (if str = [] then []
      else (case foldl (wrap_word m maxWidth) ([], []) (split_space str) of
              (lines, currentLine) \<Rightarrow>
                if currentLine \<noteq> [] then lines @ [currentLine] else lines))"

section \<open>Document model\<close>

text \<open>
  A page is the list of the children of its editor element that match
  \<open>.line, .image-line\<close>, in document order. A line carries its \<open>data-font\<close>
  attribute (absent on a line that never got one) and its text content; an image
  line carries its \<open>img\<close> element, if it has one.
\<close>

record image =
  naturalWidth :: nat
  width :: nat
  naturalHeight :: nat
  height :: nat
  newspaperFilter :: bool

datatype block =
    Line (dataset_font: "string option") (textContent: string)
  | ImageLine (img: "image option")

text \<open>
  The globals the overflow controller reads and writes: the page list, the index of
  the active page and \<open>state.font\<close>. The selection is kept as far as
  \<open>checkPageOverflow\<close> looks at it: \<open>cursorBlock\<close> is the index, within the active
  editor, of the block that contains the start of the selection, and \<open>None\<close> when
  there is no range or it starts outside every block of the active editor.
\<close>

record doc_state =
  pages :: "block list list"
  currentPageIndex :: nat
  font :: string
  cursorBlock :: "nat option"

section \<open>Overflow controller (main.js, lines 383-489)\<close>

definition MAX_PAGE_HEIGHT :: nat where
  "MAX_PAGE_HEIGHT = 1200"

text \<open>
  The rendered height of a block, \<open>child.offsetHeight\<close>, is computed by the browser's
  layout; it is a parameter \<open>offsetHeight\<close> of the model. The content height adds
  the 80 pixels of padding.
\<close>

definition contentHeight :: "(block \<Rightarrow> nat) \<Rightarrow> block list \<Rightarrow> nat" where
  "contentHeight offsetHeight children =
     foldl (\<lambda>h child. h + offsetHeight child) 0 children + 80"

text \<open>\<open>editor.querySelector('.line')\<close>: the position of the first line, if any.\<close>

fun firstLineIndex :: "block list \<Rightarrow> nat option" where
  "firstLineIndex [] = None"
| "firstLineIndex (Line f t # rest) = Some 0"
| "firstLineIndex (ImageLine i # rest) = map_option Suc (firstLineIndex rest)"

text \<open>
  \<open>firstLineOfNext = nextEditor.querySelector('.line')\<close> followed by
  \<open>if (firstLineOfNext && !firstLineOfNext.textContent.trim()) firstLineOfNext.remove()\<close>:
  the first line of the editor is removed when its text is blank.
\<close>

fun removeBlankFirstLine :: "block list \<Rightarrow> block list" where
  "removeBlankFirstLine [] = []"
| "removeBlankFirstLine (Line f t # rest) = (if trim t = [] then rest else Line f t # rest)"
| "removeBlankFirstLine (ImageLine i # rest) = ImageLine i # removeBlankFirstLine rest"

definition createNewPage :: "doc_state \<Rightarrow> doc_state" where
  "createNewPage s = s\<lparr>pages := pages s @ [[Line (Some (font s)) []]]\<rparr>"

text \<open>
  \<open>navigateToPage\<close> with \<open>focusCurrentPage\<close>: the selection moves to the first line
  of the page that becomes active.
\<close>

definition navigateToPage :: "int \<Rightarrow> doc_state \<Rightarrow> doc_state" where
  "navigateToPage index s =
     (if index < 0 \<or> index \<ge> int (length (pages s)) then s
      else s\<lparr>currentPageIndex := nat index,
              cursorBlock := firstLineIndex (pages s ! nat index)\<rparr>)"

text \<open>
  One run of \<open>checkPageOverflow\<close>. The result is the new state and whether the run
  has scheduled another one with \<open>requestAnimationFrame\<close>. The scheduled run starts
  after this one has returned, so after \<open>navigateToPage\<close> has changed the active page.
\<close>

definition checkPageOverflow :: "(block \<Rightarrow> nat) \<Rightarrow> doc_state \<Rightarrow> doc_state \<times> bool" where
  "checkPageOverflow offsetHeight s =
     (if currentPageIndex s \<ge> length (pages s) then (s, False)
      else
        let editor = pages s ! currentPageIndex s in
        if contentHeight offsetHeight editor > MAX_PAGE_HEIGHT then
          if length editor \<le> 1 then (s, False)
          else
            let lastElement = last editor;
                cursorInLastElement = (cursorBlock s = Some (length editor - 1));
                s1 = (if currentPageIndex s = length (pages s) - 1 then createNewPage s else s);
                nextEditor = removeBlankFirstLine (pages s1 ! (currentPageIndex s + 1));
                s2 = s1\<lparr>pages := (pages s1)
                        [currentPageIndex s := butlast editor,
                         currentPageIndex s + 1 := lastElement # nextEditor]\<rparr>;
                s3 = (if cursorInLastElement
                      then (navigateToPage (int (currentPageIndex s2) + 1) s2)\<lparr>cursorBlock := Some 0\<rparr>
                      else s2)
            in (s3, True)
        else (s, False))"

text \<open>
  The chain of runs that one call starts: each run that migrates a block schedules
  the next. Its termination needs a measure. A run takes a block from a page with at
  least two blocks, so the number of blocks beyond the first of each page (\<open>excess\<close>)
  never grows, and it falls whenever a page is appended; when it stays the same, the
  block has moved one page towards the end (\<open>weight\<close>).
\<close>

definition excess :: "'a list list \<Rightarrow> nat" where
  "excess ps = sum_list (map (\<lambda>p. length p - 1) ps)"

fun weight :: "'a list list \<Rightarrow> nat" where
  "weight [] = 0"
| "weight (p # ps) = length p * Suc (length ps) + weight ps"

lemma excess_append: "excess (xs @ ys) = excess xs + excess ys"
  by (simp add: excess_def)

lemma weight_append:
  "weight (xs @ ys) = weight xs + sum_list (map length xs) * length ys + weight ys"
  by (induction xs) (simp_all add: algebra_simps)

lemma length_removeBlankFirstLine:
  "length (removeBlankFirstLine bs) = length bs \<or> Suc (length (removeBlankFirstLine bs)) = length bs"
  by (induction bs rule: removeBlankFirstLine.induct) auto

lemma trim_Nil: "trim [] = []"
  by (simp add: trim_def trimEnd_def)

text \<open>The shape of one migrating step.\<close>

lemma checkPageOverflow_again:
  assumes "checkPageOverflow h s = (s', True)"
  shows "currentPageIndex s < length (pages s)"
    and "MAX_PAGE_HEIGHT < contentHeight h (pages s ! currentPageIndex s)"
    and "2 \<le> length (pages s ! currentPageIndex s)"
  using assms by (auto simp: checkPageOverflow_def Let_def split: if_splits)

lemma pages_navigateToPage [simp]: "pages (navigateToPage i s) = pages s"
  by (simp add: navigateToPage_def)

lemma checkPageOverflow_pages:
  assumes "checkPageOverflow h s = (s', True)"
  shows "pages s' =
     (if currentPageIndex s = length (pages s) - 1 then pages s @ [[Line (Some (font s)) []]] else pages s)
       [currentPageIndex s := butlast (pages s ! currentPageIndex s),
        currentPageIndex s + 1 := last (pages s ! currentPageIndex s) #
          removeBlankFirstLine
            ((if currentPageIndex s = length (pages s) - 1
              then pages s @ [[Line (Some (font s)) []]] else pages s) ! (currentPageIndex s + 1))]"
  using assms
  by (auto simp: checkPageOverflow_def Let_def createNewPage_def split: if_splits)

lemma migrate_last_page:
  "(pre @ [editor] @ [[b]])[length pre := e', length pre + 1 := x # f ((pre @ [editor] @ [[b]]) ! (length pre + 1))]
     = pre @ [e', x # f [b]]"
  by (simp add: list_update_append nth_append)

lemma migrate_inner_page:
  "(pre @ editor # nxt # rest)[length pre := e', length pre + 1 := x # f ((pre @ editor # nxt # rest) ! (length pre + 1))]
     = pre @ e' # (x # f nxt) # rest"
  by (simp add: list_update_append nth_append)

lemma checkPageOverflow_shape:
  assumes "checkPageOverflow h s = (s', True)"
  obtains pre editor rest nxt rest' where
    "pages s = pre @ editor # rest" "length pre = currentPageIndex s" "2 \<le> length editor"
    "MAX_PAGE_HEIGHT < contentHeight h editor"
    "pages s' = pre @ butlast editor # (last editor # removeBlankFirstLine nxt) # rest'"
    "(rest = [] \<and> nxt = [Line (Some (font s)) []] \<and> rest' = []) \<or> rest = nxt # rest'"
proof -
  let ?c = "currentPageIndex s"
  note ag = checkPageOverflow_again [OF assms]
  define pre where "pre = take ?c (pages s)"
  define editor where "editor = pages s ! ?c"
  define rest where "rest = drop (Suc ?c) (pages s)"
  have split: "pages s = pre @ editor # rest"
    unfolding pre_def editor_def rest_def using ag(1) by (simp add: id_take_nth_drop [symmetric])
  have lp: "length pre = ?c" unfolding pre_def using ag(1) by simp
  have over: "MAX_PAGE_HEIGHT < contentHeight h editor" and len: "2 \<le> length editor"
    using ag by (simp_all add: editor_def)
  note step = checkPageOverflow_pages [OF assms, folded editor_def]
  show thesis
  proof (cases rest)
    case Nil
    with split lp have lastp: "?c = length (pages s) - 1" by simp
    have "pages s = pre @ [editor]" using split Nil by simp
    from step [unfolded this lp [symmetric]]
    have "pages s' = pre @ [butlast editor, last editor # removeBlankFirstLine [Line (Some (font s)) []]]"
      using migrate_last_page [of pre editor "Line (Some (font s)) []" "butlast editor" "last editor" removeBlankFirstLine]
      by simp
    with split lp len over Nil show thesis by (intro that) auto
  next
    case (Cons nxt rest')
    with split lp have notlast: "?c \<noteq> length (pages s) - 1" by simp
    have "pages s = pre @ editor # nxt # rest'" using split Cons by simp
    from step [unfolded this lp [symmetric]]
    have "pages s' = pre @ butlast editor # (last editor # removeBlankFirstLine nxt) # rest'"
      using migrate_inner_page [of pre editor nxt rest' "butlast editor" "last editor" removeBlankFirstLine]
      by simp
    with split lp len over Cons show thesis by (intro that) auto
  qed
qed

lemma checkPageOverflow_decreases:
  assumes "checkPageOverflow h s = (s', True)"
  shows "excess (pages s') < excess (pages s) \<or>
         (excess (pages s') = excess (pages s) \<and> weight (pages s') < weight (pages s))"
proof -
  from assms obtain pre editor rest nxt rest' where
    ps: "pages s = pre @ editor # rest" and len: "2 \<le> length editor" and
    ps': "pages s' = pre @ butlast editor # (last editor # removeBlankFirstLine nxt) # rest'" and
    alt: "(rest = [] \<and> nxt = [Line (Some (font s)) []] \<and> rest' = []) \<or> rest = nxt # rest'"
    by (rule checkPageOverflow_shape)
  from len have "length editor = Suc (Suc (length editor - 2))" by arith
  then obtain n where n: "length editor = Suc (Suc n)" ..
  from alt show ?thesis
  proof
    assume "rest = [] \<and> nxt = [Line (Some (font s)) []] \<and> rest' = []"
    with ps ps' n have "excess (pages s') < excess (pages s)"
      by (simp add: excess_append excess_def trim_Nil)
    then show ?thesis ..
  next
    assume r: "rest = nxt # rest'"
    from length_removeBlankFirstLine [of nxt] show ?thesis
    proof
      assume same: "length (removeBlankFirstLine nxt) = length nxt"
      show ?thesis
      proof (cases "nxt = []")
        case True
        with ps ps' n r have "excess (pages s') < excess (pages s)"
          by (simp add: excess_append excess_def)
        then show ?thesis ..
      next
        case False
        then obtain k where k: "length nxt = Suc k" by (cases nxt) auto
        from ps ps' n r same k have "excess (pages s') = excess (pages s)"
          by (simp add: excess_append excess_def)
        moreover from ps ps' n r same have "weight (pages s') < weight (pages s)"
          by (simp add: weight_append)
        ultimately show ?thesis by simp
      qed
    next
      assume "Suc (length (removeBlankFirstLine nxt)) = length nxt"
      with ps ps' n r have "excess (pages s') < excess (pages s)"
        by (auto simp: excess_append excess_def)
      then show ?thesis ..
    qed
  qed
qed

text \<open>
  The chain itself: a run that has migrated a block is followed by the run it has
  scheduled, on the state it has left (no edit comes in between).
\<close>

function checkPageOverflow_settle :: "(block \<Rightarrow> nat) \<Rightarrow> doc_state \<Rightarrow> doc_state" where
  "checkPageOverflow_settle offsetHeight s =
     (case checkPageOverflow offsetHeight s of
        (s', again) \<Rightarrow> if again then checkPageOverflow_settle offsetHeight s' else s')"
  by pat_completeness auto
termination checkPageOverflow_settle
proof (relation "measures [\<lambda>(h, s). excess (pages s), \<lambda>(h, s). weight (pages s)]")
  show "wf (measures [\<lambda>(h, s). excess (pages s), \<lambda>(h, s). weight (pages s)])" by simp
next
  fix offsetHeight :: "block \<Rightarrow> nat" and s x :: doc_state and again :: bool
  assume "(x, again) = checkPageOverflow offsetHeight s" and again
  then have "checkPageOverflow offsetHeight s = (x, True)" by simp
  from checkPageOverflow_decreases [OF this]
  show "((offsetHeight, x), offsetHeight, s) \<in>
          measures [\<lambda>(h, s). excess (pages s), \<lambda>(h, s). weight (pages s)]"
    by auto
qed

declare checkPageOverflow_settle.simps [simp del]

section \<open>Plain-text export: \<open>getEditorText\<close> (main.js, lines 544-558)\<close>

text \<open>\<open>page.querySelectorAll('.line')\<close>, each line's \<open>textContent\<close>.\<close>

fun lineTexts :: "block list \<Rightarrow> string list" where
  "lineTexts [] = []"
| "lineTexts (Line f t # rest) = t # lineTexts rest"
| "lineTexts (ImageLine i # rest) = lineTexts rest"

text \<open>
  The \<open>pages.forEach\<close> loop, at page index \<open>pageIndex\<close> of \<open>n\<close> pages, with the text
  accumulated so far.
\<close>

fun getEditorText_loop :: "nat \<Rightarrow> nat \<Rightarrow> block list list \<Rightarrow> string \<Rightarrow> string" where
  "getEditorText_loop n pageIndex [] acc = acc"
| "getEditorText_loop n pageIndex (page # rest) acc =
     (let acc1 = foldl (\<lambda>a line. a @ line @ ''\<newline>'') acc (lineTexts page);
          acc2 = (if int pageIndex < int n - 1
                  then acc1 @ ''\<newline>--- Seite '' @ string_of_nat (pageIndex + 2) @ '' ---\<newline>\<newline>''
                  else acc1)
      in getEditorText_loop n (pageIndex + 1) rest acc2)"

definition getEditorText :: "block list list \<Rightarrow> string" where
  "getEditorText ps = trimEnd (getEditorText_loop (length ps) 0 ps [])"

section \<open>PNG export: \<open>savePNG\<close> (main.js, lines 597-682)\<close>

text \<open>
  The text content of an image line is the label of its filter button, the newspaper
  emoji U+1F4F0. Its two code units lie outside \<^typ>\<open>char\<close>; a stand-in that is not
  white space takes their place.
\<close>

definition filterBtn_label :: string where
  "filterBtn_label = ''[N]''"

definition isImageLine :: "block \<Rightarrow> bool" where
  "isImageLine b = (case b of Line f t \<Rightarrow> False | ImageLine i \<Rightarrow> True)"

definition editor_textContent :: "block list \<Rightarrow> string" where
  "editor_textContent editor =
     concat (map (\<lambda>b. case b of Line f t \<Rightarrow> t | ImageLine i \<Rightarrow> filterBtn_label) editor)"

text \<open>The predicate of \<open>pages.filter\<close>.\<close>

definition hasContent :: "block list \<Rightarrow> bool" where
  "hasContent editor =
     (let content = trim (editor_textContent editor);
          images = filter isImageLine editor
      in length content > 0 \<or> length images > 0)"

definition pagesWithContent :: "block list list \<Rightarrow> block list list" where
  "pagesWithContent ps = filter hasContent ps"

text \<open>
  The collaborators. A dialog resolves to a path, resolves to \<open>null\<close> when the user
  cancels, or rejects. \<open>fs.writeFile\<close> resolves or rejects, depending on the path.
  \<open>canvas_ok\<close> tells whether \<open>createDocumentCanvas\<close> and \<open>toBlob\<close> deliver a raster
  for the page.
\<close>

datatype dialog_result = Chosen string | Cancelled | DialogError

record collaborators =
  dialog_save :: dialog_result
  dialog_open :: dialog_result
  writeFile_ok :: "string \<Rightarrow> bool"
  canvas_ok :: "block list \<Rightarrow> bool"

text \<open>What \<open>savePNG\<close> can throw inside its \<open>try\<close> blocks.\<close>

datatype exn = DialogFailed | WriteFailed string | CanvasFailed

text \<open>
  What \<open>savePNG\<close> does to the outside, in order: a page rendered to a fresh canvas,
  the two dialogs, a file written with the raster of a page, a download of the raster
  of a page under a file name, a pause in milliseconds, and \<open>console.error\<close>.
\<close>

datatype event =
    Render "block list"
  | PromptSave string
  | PromptOpen
  | WriteFile string "block list"
  | Download string "block list"
  | Delay nat
  | LogError exn

text \<open>The branch for a single page with content.\<close>

definition savePNG_single :: "collaborators \<Rightarrow> block list \<Rightarrow> event list \<times> (exn + unit)" where
  "savePNG_single c editor =
     (if \<not> canvas_ok c editor then ([], Inl CanvasFailed)
      else case dialog_save c of
        DialogError \<Rightarrow> ([Render editor, PromptSave ''dokument.png''], Inl DialogFailed)
      | Cancelled \<Rightarrow> ([Render editor, PromptSave ''dokument.png''], Inr ())
      | Chosen filePath \<Rightarrow>
          if filePath = [] then ([Render editor, PromptSave ''dokument.png''], Inr ())
          else if writeFile_ok c filePath
          then ([Render editor, PromptSave ''dokument.png'', WriteFile filePath editor], Inr ())
          else ([Render editor, PromptSave ''dokument.png'', WriteFile filePath editor],
                Inl (WriteFailed filePath)))"

definition page_fileName :: "nat \<Rightarrow> string" where
  "page_fileName i = ''dokument_seite_'' @ string_of_nat (i + 1) @ ''.png''"

text \<open>The \<open>for\<close> loop that writes one file per page into the chosen folder.\<close>

fun savePNG_write_loop ::
  "collaborators \<Rightarrow> string \<Rightarrow> nat \<Rightarrow> block list list \<Rightarrow> event list \<times> (exn + unit)"
where
  "savePNG_write_loop c folderPath i [] = ([], Inr ())"
| "savePNG_write_loop c folderPath i (editor # rest) =
     (if \<not> canvas_ok c editor then ([], Inl CanvasFailed)
      else
        let filePath = folderPath @ ''/'' @ page_fileName i in
        if writeFile_ok c filePath
        then (case savePNG_write_loop c folderPath (i + 1) rest of
                (evs, r) \<Rightarrow> (Render editor # WriteFile filePath editor # evs, r))
        else ([Render editor, WriteFile filePath editor], Inl (WriteFailed filePath)))"

definition savePNG_multi :: "collaborators \<Rightarrow> block list list \<Rightarrow> event list \<times> (exn + unit)" where
  "savePNG_multi c pwc =
     (case dialog_open c of
        DialogError \<Rightarrow> ([PromptOpen], Inl DialogFailed)
      | Cancelled \<Rightarrow> ([PromptOpen], Inr ())
      | Chosen folderPath \<Rightarrow>
          if folderPath = [] then ([PromptOpen], Inr ())
          else (case savePNG_write_loop c folderPath 0 pwc of
                  (evs, r) \<Rightarrow> (PromptOpen # evs, r)))"

text \<open>The body of the outer \<open>try\<close>.\<close>

definition savePNG_try :: "collaborators \<Rightarrow> block list list \<Rightarrow> event list \<times> (exn + unit)" where
  "savePNG_try c pwc =
     (if length pwc = 1 then savePNG_single c (pwc ! 0) else savePNG_multi c pwc)"

text \<open>The loop of the \<open>catch\<close> block: every page is rendered again and downloaded.\<close>

fun savePNG_fallback ::
  "collaborators \<Rightarrow> nat \<Rightarrow> nat \<Rightarrow> block list list \<Rightarrow> event list \<times> (exn + unit)"
where
  "savePNG_fallback c n i [] = ([], Inr ())"
| "savePNG_fallback c n i (editor # rest) =
     (if \<not> canvas_ok c editor then ([], Inl CanvasFailed)
      else
        let download = (if n = 1 then ''dokument.png'' else page_fileName i);
            evs = Render editor # Download download editor #
                    (if int i < int n - 1 then [Delay 500] else [])
        in case savePNG_fallback c n (i + 1) rest of (evs', r) \<Rightarrow> (evs @ evs', r))"

text \<open>
  \<open>savePNG\<close>: the events, and how the call ends (\<open>Inl\<close> for an exception that leaves
  the function).
\<close>

definition savePNG :: "collaborators \<Rightarrow> block list list \<Rightarrow> event list \<times> (exn + unit)" where
  "savePNG c ps =
     (let pwc = pagesWithContent ps in
      if length pwc = 0 then ([], Inr ())
      else case savePNG_try c pwc of
        (evs, Inr u) \<Rightarrow> (evs, Inr ())
      | (evs, Inl e) \<Rightarrow>
          (case savePNG_fallback c (length pwc) 0 pwc of
             (evs', Inr u) \<Rightarrow> (evs @ LogError e # evs', Inr ())
           | (evs', Inl e') \<Rightarrow> (evs @ LogError e # evs' @ [LogError e'], Inr ())))"

section \<open>Canvas renderer: \<open>createDocumentCanvas\<close> (main.js, lines 685-838)\<close>

record fontInfo =
  font_family :: string
  font_size :: nat

definition fontMap :: "string \<Rightarrow> fontInfo option" where
  "fontMap = map_of
     [(''special-elite'', \<lparr>font_family = ''Special Elite'', font_size = 18\<rparr>),
      (''american-typewriter'', \<lparr>font_family = ''American Typewriter'', font_size = 17\<rparr>),
      (''adler'', \<lparr>font_family = ''Adler'', font_size = 22\<rparr>),
      (''remington'', \<lparr>font_family = ''Remington'', font_size = 20\<rparr>),
      (''1942'', \<lparr>font_family = ''1942'', font_size = 20\<rparr>),
      (''berlin-email'', \<lparr>font_family = ''Berlin Email'', font_size = 18\<rparr>),
      (''cutmeout'', \<lparr>font_family = ''CutMeOut'', font_size = 20\<rparr>),
      (''facets'', \<lparr>font_family = ''Facets'', font_size = 20\<rparr>),
      (''hofstaetten'', \<lparr>font_family = ''Hofstaetten'', font_size = 18\<rparr>),
      (''zent'', \<lparr>font_family = ''Zent'', font_size = 20\<rparr>)]"

text \<open>The value assigned to \<open>tempCtx.font\<close> before a line is measured.\<close>

definition ctx_font :: "fontInfo \<Rightarrow> string" where
  "ctx_font fi =
     string_of_nat (font_size fi) @ ''px '' @ [CHR 0x22] @ font_family fi @ [CHR 0x22] @
       '', monospace''"

text \<open>
  The local constants. Lengths are JavaScript numbers; they are modelled as reals.
  \<open>text_maxWidth\<close> is the local \<open>maxWidth\<close>.
\<close>

definition pageWidth :: real where "pageWidth = 800"
definition marginX :: real where "marginX = 60"
definition marginTop :: real where "marginTop = 80"
definition marginBottom :: real where "marginBottom = 80"
definition lineHeight :: real where "lineHeight = 32"
definition text_maxWidth :: real where "text_maxWidth = pageWidth - marginX * 2"

datatype render_item =
    RenderEmpty
  | RenderText string fontInfo
  | RenderImage image real real bool

text \<open>\<open>a || b\<close> on dimensions: zero is falsy.\<close>

definition or_else :: "nat \<Rightarrow> nat \<Rightarrow> nat" where
  "or_else a b = (if a = 0 then b else a)"

text \<open>
  The body of \<open>children.forEach\<close> in the first pass, on the state
  \<open>(renderData, totalContentHeight)\<close>. The measuring context is modelled by
  \<open>measureText\<close>, which takes the value of \<open>ctx.font\<close> and the string.
\<close>

definition measure_child ::
  "(string \<Rightarrow> string \<Rightarrow> real) \<Rightarrow> render_item list \<times> real \<Rightarrow> block \<Rightarrow> render_item list \<times> real"
where
  "measure_child measureText st child =
     (case st of (renderData, totalContentHeight) \<Rightarrow>
        (case child of
           ImageLine im_opt \<Rightarrow>
             (case im_opt of
                None \<Rightarrow> (renderData, totalContentHeight)
              | Some im \<Rightarrow>
                  let imgMaxWidth = text_maxWidth - 40;
                      imgMaxHeight = 300;
                      imgWidth = real (or_else (naturalWidth im) (or_else (width im) 200));
                      imgHeight = real (or_else (naturalHeight im) (or_else (height im) 150));
                      scale = min (min (imgMaxWidth / imgWidth) (imgMaxHeight / imgHeight)) 1
                  in (renderData @
                        [RenderImage im (imgWidth * scale) (imgHeight * scale) (newspaperFilter im)],
                      totalContentHeight + (imgHeight * scale + 24)))
         | Line f t \<Rightarrow>
             let fontKey = (case f of None \<Rightarrow> ''special-elite''
                            | Some k \<Rightarrow> if k = [] then ''special-elite'' else k);
                 fontInfo = (case fontMap fontKey of
                               Some fi \<Rightarrow> fi
                             | None \<Rightarrow> \<lparr>font_family = ''Special Elite'', font_size = 18\<rparr>)
             in if trim t = [] then (renderData @ [RenderEmpty], totalContentHeight + lineHeight)
                else
                  let wrappedLines = wrapText (measureText (ctx_font fontInfo)) t text_maxWidth
                  in (renderData @ map (\<lambda>wrappedLine. RenderText wrappedLine fontInfo) wrappedLines,
                      totalContentHeight + lineHeight * real (length wrappedLines) +
                        (if length wrappedLines = 0 then lineHeight else 0))))"

definition measure_pass ::
  "(string \<Rightarrow> string \<Rightarrow> real) \<Rightarrow> block list \<Rightarrow> render_item list \<times> real" where
  "measure_pass measureText editor = foldl (measure_child measureText) ([], 0) editor"

text \<open>
  The results of \<open>Math.random()\<close> that one export consumes: the one that selects the
  frame style, and those that perturb the pixels of the paper texture.
\<close>

record random_source =
  frame_random :: real
  noise_random :: "nat \<Rightarrow> real"

datatype draw_op =
    FillBackground real real
  | PaperTexture "nat \<Rightarrow> real"
  | Frame nat
  | FillText string fontInfo real real
  | DrawImage image real real real real bool
  | AgingEffect real real

text \<open>The second pass over \<open>renderData\<close>, from the vertical position \<open>yPosition\<close>.\<close>

fun draw_items :: "real \<Rightarrow> render_item list \<Rightarrow> draw_op list" where
  "draw_items yPosition [] = []"
| "draw_items yPosition (RenderEmpty # items) = draw_items (yPosition + lineHeight) items"
| "draw_items yPosition (RenderText t fi # items) =
     FillText t fi marginX yPosition # draw_items (yPosition + lineHeight) items"
| "draw_items yPosition (RenderImage im w h flt # items) =
     DrawImage im (marginX + (text_maxWidth - w) / 2) (yPosition - lineHeight + 12) w h flt #
       draw_items (yPosition + (h + 24)) items"

record canvas =
  canvas_width :: real
  canvas_height :: real
  drawn :: "draw_op list"

definition createDocumentCanvas ::
  "random_source \<Rightarrow> (string \<Rightarrow> string \<Rightarrow> real) \<Rightarrow> block list \<Rightarrow> canvas" where
  "createDocumentCanvas rnd measureText editor =
     (case measure_pass measureText editor of
        (renderData, totalContentHeight) \<Rightarrow>
          let pageHeight = marginTop + totalContentHeight + marginBottom in
          \<lparr>canvas_width = pageWidth * 2,
           canvas_height = pageHeight * 2,
           drawn = [FillBackground pageWidth pageHeight,
                    PaperTexture (noise_random rnd),
                    Frame (nat \<lfloor>frame_random rnd * 5\<rfloor>)] @
                   draw_items marginTop renderData @
                   [AgingEffect pageWidth pageHeight]\<rparr>)"

section \<open>Notions used to state the properties\<close>

subsection \<open>Wrapped lines\<close>

text \<open>
  A produced line fits when its measured width is at most \<open>maxWidth\<close>, or when it is a
  single code unit that is wider than \<open>maxWidth\<close> on its own.
\<close>

definition line_fits :: "(string \<Rightarrow> 'w::linorder) \<Rightarrow> 'w \<Rightarrow> string \<Rightarrow> bool" where
  "line_fits m maxWidth l = (m l \<le> maxWidth \<or> (length l = 1 \<and> maxWidth < m l))"

text \<open>The loop invariant of \<open>wrapText\<close> on its state \<open>(lines, currentLine)\<close>.\<close>

definition wrap_inv :: "(string \<Rightarrow> 'w::linorder) \<Rightarrow> 'w \<Rightarrow> string list \<times> string \<Rightarrow> bool" where
  "wrap_inv m maxWidth st =
     (list_all (\<lambda>l. l \<noteq> [] \<and> line_fits m maxWidth l) (fst st) \<and>
      (snd st = [] \<or> line_fits m maxWidth (snd st)))"

subsection \<open>Canvas\<close>

text \<open>What a canvas shows of the layout: the text and image drawing operations.\<close>

definition isLayoutOp :: "draw_op \<Rightarrow> bool" where
  "isLayoutOp d =
     (case d of FillText t fi x y \<Rightarrow> True | DrawImage im x y w h flt \<Rightarrow> True | _ \<Rightarrow> False)"

definition drawn_content :: "canvas \<Rightarrow> draw_op list" where
  "drawn_content cv = filter isLayoutOp (drawn cv)"

text \<open>
  Two measurement paths that report the same widths, computed differently, and two
  different random sources.
\<close>

definition dom_measure :: "string \<Rightarrow> string \<Rightarrow> real" where
  "dom_measure fnt s = 11 * real (length s)"

definition canvas_measure :: "string \<Rightarrow> string \<Rightarrow> real" where
  "canvas_measure fnt s = real (length s) * 5.5 + real (length s) * 5.5"

definition random_a :: random_source where
  "random_a = \<lparr>frame_random = 0.05, noise_random = (\<lambda>i. 0.5)\<rparr>"

definition random_b :: random_source where
  "random_b = \<lparr>frame_random = 0.93, noise_random = (\<lambda>i. if even i then 0.1 else 0.9)\<rparr>"

definition photo :: image where
  "photo = \<lparr>naturalWidth = 1280, width = 640, naturalHeight = 960, height = 480,
             newspaperFilter = True\<rparr>"

definition example_editor :: "block list" where
  "example_editor =
     [Line (Some ''adler'')
        ''the quick brown fox jumps over the lazy dog and keeps running through the night'',
      Line None [],
      ImageLine (Some photo),
      Line (Some ''zent'') ''end'']"

subsection \<open>Overflow\<close>

definition isBlankLine :: "block \<Rightarrow> bool" where
  "isBlankLine b = (case b of Line f t \<Rightarrow> trim t = [] | ImageLine i \<Rightarrow> False)"

definition total_blocks :: "block list list \<Rightarrow> nat" where
  "total_blocks ps = sum_list (map length ps)"

text \<open>
  The overflow step as the specification words it: the placeholder is discarded when
  the first block of the next page is an empty line.
\<close>

definition spec_discardPlaceholder :: "block list \<Rightarrow> block list" where
  "spec_discardPlaceholder bs =
     (case bs of Line f t # rest \<Rightarrow> if t = [] then rest else bs | _ \<Rightarrow> bs)"

definition spec_overflow_step :: "doc_state \<Rightarrow> block list list" where
  "spec_overflow_step s =
     (let c = currentPageIndex s;
          ps1 = (if c = length (pages s) - 1
                 then pages s @ [[Line (Some (font s)) []]] else pages s)
      in ps1[c := butlast (pages s ! c),
             c + 1 := last (pages s ! c) # spec_discardPlaceholder (ps1 ! (c + 1))])"

text \<open>
  Two layouts: one with lines of 32 pixels and images of 324, one in which every
  block is 600 pixels high.
\<close>

definition example_offsetHeight :: "block \<Rightarrow> nat" where
  "example_offsetHeight b = (case b of Line f t \<Rightarrow> 32 | ImageLine i \<Rightarrow> 324)"

definition tall_offsetHeight :: "block \<Rightarrow> nat" where
  "tall_offsetHeight b = 600"

text \<open>
  A full first page in front of a page that starts with an image followed by an
  empty line.
\<close>

definition image_first_state :: doc_state where
  "image_first_state =
     \<lparr>pages = [[Line None ''a'', Line None ''b''], [ImageLine (Some photo), Line None []]],
      currentPageIndex = 0, font = ''special-elite'', cursorBlock = None\<rparr>"

text \<open>A full first page in front of a page that starts with an empty line.\<close>

definition blank_first_state :: doc_state where
  "blank_first_state =
     \<lparr>pages = [[Line None ''a'', Line None ''b''], [Line None [], Line None ''c'']],
      currentPageIndex = 0, font = ''special-elite'', cursorBlock = None\<rparr>"

text \<open>
  A page that held 35 lines of 32 pixels (1200 pixels with the padding, within the
  budget) after the user has pressed Enter twice at its end and typed a character:
  \<open>createNewLine\<close> runs no overflow check, so the check that follows the typed
  character finds 37 lines, with the cursor in the last one.
\<close>

definition two_returns_state :: doc_state where
  "two_returns_state =
     \<lparr>pages = [replicate 36 (Line (Some ''special-elite'') ''x'') @
                [Line (Some ''special-elite'') ''y'']],
      currentPageIndex = 0, font = ''special-elite'', cursorBlock = Some 36\<rparr>"

subsection \<open>Plain-text export\<close>

text \<open>
  The export as the specification words it: the lines of every page, each with its
  line terminator, a separator that names the number of the page it precedes between
  consecutive pages, and trailing white space trimmed. The word in the separator is
  a parameter.
\<close>

definition page_text :: "block list \<Rightarrow> string" where
  "page_text page = concat (map (\<lambda>line. line @ ''\<newline>'') (lineTexts page))"

definition page_separator :: "string \<Rightarrow> nat \<Rightarrow> string" where
  "page_separator word n = ''\<newline>--- '' @ word @ '' '' @ string_of_nat n @ '' ---\<newline>\<newline>''"

fun joined_pages :: "string \<Rightarrow> nat \<Rightarrow> block list list \<Rightarrow> string" where
  "joined_pages word n [] = []"
| "joined_pages word n [page] = page_text page"
| "joined_pages word n (page # next_page # rest) =
     page_text page @ page_separator word (n + 1) @ joined_pages word (n + 1) (next_page # rest)"

definition plain_text_export :: "string \<Rightarrow> block list list \<Rightarrow> string" where
  "plain_text_export word ps = trimEnd (joined_pages word 1 ps)"

subsection \<open>PNG export\<close>

definition isPrompt :: "event \<Rightarrow> bool" where
  "isPrompt e = (case e of PromptSave d \<Rightarrow> True | PromptOpen \<Rightarrow> True | _ \<Rightarrow> False)"

text \<open>
  The events of a successful multi-page export into \<open>folderPath\<close>, and those of the
  download fallback: per page a rendering and a file, with a pause of 500 ms after
  every download but the last.
\<close>

definition written_events :: "string \<Rightarrow> block list list \<Rightarrow> event list" where
  "written_events folderPath pwc =
     concat (map (\<lambda>(k, editor).
        [Render editor, WriteFile (folderPath @ ''/'' @ page_fileName k) editor])
       (enumerate 0 pwc))"

definition download_events :: "block list list \<Rightarrow> event list" where
  "download_events pwc =
     concat (map (\<lambda>(k, editor).
        Render editor #
        Download (if length pwc = 1 then ''dokument.png'' else page_fileName k) editor #
        (if Suc k < length pwc then [Delay 500] else []))
       (enumerate 0 pwc))"

text \<open>Collaborators and documents for the examples.\<close>

definition all_ok :: collaborators where
  "all_ok = \<lparr>dialog_save = Chosen ''/tmp/out.png'', dialog_open = Chosen ''/tmp/out'',
             writeFile_ok = (\<lambda>p. True), canvas_ok = (\<lambda>e. True)\<rparr>"

definition cancelled_save :: collaborators where
  "cancelled_save = all_ok\<lparr>dialog_save := Cancelled\<rparr>"

definition second_write_fails :: collaborators where
  "second_write_fails =
     all_ok\<lparr>writeFile_ok := (\<lambda>path. path \<noteq> ''/tmp/out/dokument_seite_2.png'')\<rparr>"

definition only_page_two :: "block list list" where
  "only_page_two = [[Line None '' ''], [Line None ''B''], [Line None []]]"

definition three_full_pages :: "block list list" where
  "three_full_pages = [[Line None ''A''], [Line None ''B''], [ImageLine (Some photo)]]"

section \<open>Properties of \<open>wrapText\<close>\<close>

subsection \<open>The loop invariant\<close>

lemma break_word_inv:
  "wrap_inv m w (lines, chunk) \<Longrightarrow> wrap_inv m w (break_word m w cs (lines, chunk))"
proof (induction cs arbitrary: lines chunk)
  case Nil
  then show ?case by simp
next
  case (Cons c cs)
  show ?case
  proof (cases "m (chunk @ [c]) > w \<and> chunk \<noteq> []")
    case True
    from Cons.prems True have "wrap_inv m w (lines @ [chunk], [c])"
      by (auto simp: wrap_inv_def line_fits_def)
    from Cons.IH [OF this] True show ?thesis by simp
  next
    case False
    from Cons.prems False have "wrap_inv m w (lines, chunk @ [c])"
      by (auto simp: wrap_inv_def line_fits_def not_less)
    from Cons.IH [OF this] False show ?thesis by (auto simp: Let_def)
  qed
qed

lemma wrap_word_inv:
  assumes "wrap_inv m w st"
  shows "wrap_inv m w (wrap_word m w st word)"
proof -
  obtain lines cur where st: "st = (lines, cur)" by (cases st)
  show ?thesis
  proof (cases "m word > w")
    case True
    from assms st have "wrap_inv m w (if cur \<noteq> [] then lines @ [cur] else lines, [])"
      by (auto simp: wrap_inv_def)
    from break_word_inv [OF this] True st show ?thesis
      by (simp add: wrap_word_def)
  next
    case False
    with assms st show ?thesis
      by (auto simp: wrap_word_def wrap_inv_def line_fits_def Let_def not_less)
  qed
qed

lemma foldl_wrap_word_inv:
  "wrap_inv m w st \<Longrightarrow> wrap_inv m w (foldl (wrap_word m w) st ws)"
  by (induction ws arbitrary: st) (simp_all add: wrap_word_inv)

lemma wrapText_lines_inv:
  "list_all (\<lambda>l. l \<noteq> [] \<and> line_fits m w l) (wrapText m str w)"
proof (cases "str = []")
  case True
  then show ?thesis by (simp add: wrapText_def)
next
  case False
  have "wrap_inv m w (foldl (wrap_word m w) ([], []) (split_space str))"
    by (rule foldl_wrap_word_inv) (simp add: wrap_inv_def)
  with False show ?thesis
    by (auto simp: wrapText_def wrap_inv_def split: prod.splits)
qed

subsection \<open>Only the comparisons against \<open>maxWidth\<close> matter\<close>

lemma break_word_cong:
  assumes "\<And>s. (m1 s > w1) = (m2 s > w2)"
  shows "break_word m1 w1 cs st = break_word m2 w2 cs st"
proof (induction cs arbitrary: st)
  case Nil
  then show ?case by (cases st) simp
next
  case (Cons c cs)
  then show ?case by (cases st) (simp add: assms Let_def)
qed

lemma wrap_word_cong:
  assumes "\<And>s. (m1 s > w1) = (m2 s > w2)"
  shows "wrap_word m1 w1 st word = wrap_word m2 w2 st word"
  by (cases st) (simp add: wrap_word_def assms Let_def break_word_cong [OF assms])

lemma wrapText_cong:
  assumes "\<And>s. (m1 s > w1) = (m2 s > w2)"
  shows "wrapText m1 str w1 = wrapText m2 str w2"
proof -
  have "wrap_word m1 w1 = wrap_word m2 w2"
    by (intro ext) (rule wrap_word_cong [OF assms])
  then show ?thesis by (simp add: wrapText_def)
qed

subsection \<open>Boundedness\<close>

text \<open>
  Claim C2. For every input text, every width-measurement function and every
  \<open>maxWidth\<close>, each line returned by \<open>wrapText\<close> has measured width at most
  \<open>maxWidth\<close>, except for a line that consists of a single character whose measured
  width alone exceeds \<open>maxWidth\<close>. The code needs no assumption on the measurement
  function (monotone and space-additive ones included).
\<close>

theorem wrapText_bounded:
  "\<forall>l \<in> set (wrapText m str maxWidth).
     m l \<le> maxWidth \<or> (length l = 1 \<and> maxWidth < m l)"
  using wrapText_lines_inv [of m maxWidth str]
  by (auto simp: list_all_iff line_fits_def)

theorem wrapText_bounded_witness:
  "''dd e'' \<in> set (wrapText (\<lambda>s. int (length s)) ''a  bb ccc  dddddddddddddd e'' 4) \<and>
   (int (length ''dd e'') \<le> 4 \<or> (length ''dd e'' = 1 \<and> 4 < int (length ''dd e''))) \<and>
   ''c'' \<in> set (wrapText (\<lambda>s. int (length s)) ''abc de'' 0) \<and>
   (int (length ''c'') \<le> 0 \<or> (length ''c'' = 1 \<and> 0 < int (length ''c'')))"
proof -
  have m1: "''dd e'' \<in> set (wrapText (\<lambda>s. int (length s)) ''a  bb ccc  dddddddddddddd e'' 4)"
    by code_simp
  have m2: "''c'' \<in> set (wrapText (\<lambda>s. int (length s)) ''abc de'' 0)"
    by code_simp
  from m1 m2
    wrapText_bounded [of "\<lambda>s. int (length s)" "''a  bb ccc  dddddddddddddd e''" 4]
    wrapText_bounded [of "\<lambda>s. int (length s)" "''abc de''" 0]
  show ?thesis by blast
qed

subsection \<open>The long-word example\<close>

lemma wrapText_charWidth:
  fixes charWidth :: real
  assumes "0 < charWidth"
  shows "wrapText (\<lambda>s. charWidth * real (length s)) str (10 * charWidth) =
         wrapText (\<lambda>s. int (length s)) str 10"
proof -
  have "\<And>s. (charWidth * real (length s) > 10 * charWidth) = (int (length s) > 10)"
    using assms by (simp add: mult.commute)
  from wrapText_cong [where ?m1.0 = "\<lambda>s. charWidth * real (length s)"
      and ?w1.0 = "10 * charWidth" and ?m2.0 = "\<lambda>s. int (length s)" and ?w2.0 = 10, OF this]
  show ?thesis .
qed

lemma wrapText_long_word_chunks:
  "wrapText (\<lambda>s. int (length s)) ''Supercalifragilisticexpialidocious'' 10 =
     [''Supercalif'', ''ragilistic'', ''expialidoc'', ''ious'']"
  by code_simp

text \<open>
  Claim C9. With a measurement function that measures every string as \<open>charWidth\<close>
  times its length (a positive width per character) and \<open>maxWidth = 10 * charWidth\<close>,
  \<open>wrapText\<close> applied to the single word "Supercalifragilisticexpialidocious" returns
  more than one chunk, every chunk has at most 10 characters, and the chunks
  concatenated in order give back the word.
\<close>

theorem wrapText_long_word:
  fixes charWidth :: real
  assumes "0 < charWidth"
  shows "1 < length (wrapText (\<lambda>s. charWidth * real (length s))
                 ''Supercalifragilisticexpialidocious'' (10 * charWidth)) \<and>
         (\<forall>chunk \<in> set (wrapText (\<lambda>s. charWidth * real (length s))
                 ''Supercalifragilisticexpialidocious'' (10 * charWidth)). length chunk \<le> 10) \<and>
         concat (wrapText (\<lambda>s. charWidth * real (length s))
                 ''Supercalifragilisticexpialidocious'' (10 * charWidth)) =
           ''Supercalifragilisticexpialidocious''"
  by (simp add: wrapText_charWidth [OF assms] wrapText_long_word_chunks)

theorem wrapText_long_word_witness:
  "(0::real) < 8 \<and>
   1 < length (wrapText (\<lambda>s. 8 * real (length s)) ''Supercalifragilisticexpialidocious'' (10 * 8)) \<and>
   concat (wrapText (\<lambda>s. 8 * real (length s)) ''Supercalifragilisticexpialidocious'' (10 * 8)) =
     ''Supercalifragilisticexpialidocious''"
proof -
  have pos: "(0::real) < 8" by simp
  from wrapText_long_word [OF pos] pos show ?thesis by blast
qed

subsection \<open>No empty line is produced\<close>

lemma split_acc_spaces: "split_acc cur (replicate n (CHR '' '')) = cur # replicate n []"
  by (induction n arbitrary: cur) simp_all

lemma wrap_word_empty: "wrap_word m w (lines, []) [] = (lines, [])"
  by (simp add: wrap_word_def)

lemma foldl_wrap_word_empties:
  "foldl (wrap_word m w) (lines, []) (replicate n []) = (lines, [])"
  by (induction n) (simp_all add: wrap_word_empty)

text \<open>
  Claim C10. For every input text, measurement function and \<open>maxWidth\<close>, every string
  in the sequence returned by \<open>wrapText\<close> is non-empty; in particular an input that
  consists only of spaces (any number of them) yields zero lines.
\<close>

theorem wrapText_nonempty_lines:
  "[] \<notin> set (wrapText m str maxWidth) \<and>
   wrapText m (replicate n (CHR '' '')) maxWidth = []"
proof
  show "[] \<notin> set (wrapText m str maxWidth)"
    using wrapText_lines_inv [of m maxWidth str] by (auto simp: list_all_iff)
  have "foldl (wrap_word m maxWidth) ([], []) ([] # replicate n []) = ([], [])"
    using foldl_wrap_word_empties [of m maxWidth "[]" "Suc n"] by simp
  then show "wrapText m (replicate n (CHR '' '')) maxWidth = []"
    by (simp add: wrapText_def split_space_def split_acc_spaces)
qed

theorem wrapText_nonempty_lines_witness:
  "[] \<notin> set (wrapText (\<lambda>s. int (length s)) ''a  bb ccc  dddddddddddddd e'' 4) \<and>
   wrapText (\<lambda>s. int (length s)) ''   '' 4 = []"
proof -
  have "replicate 3 (CHR '' '') = ''   ''" by (simp add: numeral_3_eq_3)
  with wrapText_nonempty_lines [of "\<lambda>s. int (length s)" "''a  bb ccc  dddddddddddddd e''" 4 3]
  show ?thesis by simp
qed


section \<open>The layout does not depend on the measurement path or on randomness\<close>

lemma measure_child_cong:
  assumes "\<forall>fnt s. M1 fnt s = M2 fnt s"
  shows "measure_child M1 st child = measure_child M2 st child"
proof -
  have "\<And>fnt t. wrapText (M1 fnt) t text_maxWidth = wrapText (M2 fnt) t text_maxWidth"
    by (rule wrapText_cong) (simp add: assms)
  then show ?thesis
    by (simp add: measure_child_def Let_def split: prod.splits block.splits option.splits)
qed

lemma measure_pass_cong:
  assumes "\<forall>fnt s. M1 fnt s = M2 fnt s"
  shows "measure_pass M1 editor = measure_pass M2 editor"
proof -
  have "measure_child M1 = measure_child M2"
    by (intro ext) (rule measure_child_cong [OF assms])
  then show ?thesis by (simp add: measure_pass_def)
qed

lemma drawn_content_createDocumentCanvas:
  "drawn_content (createDocumentCanvas rnd M editor) =
     filter isLayoutOp (draw_items marginTop (fst (measure_pass M editor)))"
  by (simp add: drawn_content_def createDocumentCanvas_def isLayoutOp_def Let_def split: prod.splits)

lemma canvas_height_createDocumentCanvas:
  "canvas_height (createDocumentCanvas rnd M editor) =
     (marginTop + snd (measure_pass M editor) + marginBottom) * 2"
  by (simp add: createDocumentCanvas_def Let_def split: prod.splits)

text \<open>
  Claim C1. The output of \<open>wrapText\<close> depends on the width-measurement function only
  through the widths it returns: two measurement functions that return equal widths
  on every string (one backed by rendered geometry, one by the text metrics of an
  off-screen canvas) give the same wrapped lines for every text and maximum width.
  In \<open>createDocumentCanvas\<close> the random elements (frame choice, grain) influence
  neither the measuring pass, nor the computed page height, nor the text and images
  drawn: those are the same for any two random sources.
\<close>

theorem wrap_independent_of_measurement_path:
  assumes "\<forall>s. m1 s = m2 s" and "\<forall>fnt s. M1 fnt s = M2 fnt s"
  shows "wrapText m1 str w = wrapText m2 str w \<and>
         measure_pass M1 editor = measure_pass M2 editor \<and>
         canvas_height (createDocumentCanvas rnd1 M1 editor) =
           canvas_height (createDocumentCanvas rnd2 M2 editor) \<and>
         drawn_content (createDocumentCanvas rnd1 M1 editor) =
           drawn_content (createDocumentCanvas rnd2 M2 editor)"
proof (intro conjI)
  show "wrapText m1 str w = wrapText m2 str w"
    by (rule wrapText_cong) (simp add: assms(1))
  show mp: "measure_pass M1 editor = measure_pass M2 editor"
    by (rule measure_pass_cong [OF assms(2)])
  show "canvas_height (createDocumentCanvas rnd1 M1 editor) =
           canvas_height (createDocumentCanvas rnd2 M2 editor)"
    by (simp add: canvas_height_createDocumentCanvas mp)
  show "drawn_content (createDocumentCanvas rnd1 M1 editor) =
           drawn_content (createDocumentCanvas rnd2 M2 editor)"
    by (simp add: drawn_content_createDocumentCanvas mp)
qed

theorem wrap_independent_of_measurement_path_witness:
  "(\<forall>fnt s. dom_measure fnt s = canvas_measure fnt s) \<and>
   wrapText (dom_measure ''18px serif'') ''the quick brown fox'' 100 =
     wrapText (canvas_measure ''18px serif'') ''the quick brown fox'' 100 \<and>
   drawn (createDocumentCanvas random_a dom_measure example_editor) \<noteq>
     drawn (createDocumentCanvas random_b canvas_measure example_editor) \<and>
   canvas_height (createDocumentCanvas random_a dom_measure example_editor) =
     canvas_height (createDocumentCanvas random_b canvas_measure example_editor) \<and>
   drawn_content (createDocumentCanvas random_a dom_measure example_editor) =
     drawn_content (createDocumentCanvas random_b canvas_measure example_editor)"
proof -
  have eq: "\<forall>fnt s. dom_measure fnt s = canvas_measure fnt s"
    by (simp add: dom_measure_def canvas_measure_def)
  then have eq1: "\<forall>s. dom_measure ''18px serif'' s = canvas_measure ''18px serif'' s" by simp
  have ne: "drawn (createDocumentCanvas random_a dom_measure example_editor) \<noteq>
     drawn (createDocumentCanvas random_b canvas_measure example_editor)"
    by (simp add: createDocumentCanvas_def random_a_def random_b_def Let_def split: prod.splits)
  from wrap_independent_of_measurement_path [OF eq1 eq, of "''the quick brown fox''" 100
      example_editor random_a random_b] eq ne
  show ?thesis by blast
qed

section \<open>Properties of the overflow controller\<close>

lemma checkPageOverflow_cases:
  obtains (stay) "checkPageOverflow h s = (s, False)"
    | (move) s' where "checkPageOverflow h s = (s', True)"
  by (cases "checkPageOverflow h s")
    (auto simp: checkPageOverflow_def Let_def split: if_splits)

lemma checkPageOverflow_migrates:
  assumes "currentPageIndex s < length (pages s)"
      and "MAX_PAGE_HEIGHT < contentHeight h (pages s ! currentPageIndex s)"
      and "2 \<le> length (pages s ! currentPageIndex s)"
  shows "snd (checkPageOverflow h s)"
  using assms by (simp add: checkPageOverflow_def Let_def)

lemma removeBlankFirstLine_eq:
  "removeBlankFirstLine bs =
     (case firstLineIndex bs of
        None \<Rightarrow> bs
      | Some i \<Rightarrow> if trim (textContent (bs ! i)) = [] then take i bs @ drop (Suc i) bs else bs)"
  by (induction bs rule: removeBlankFirstLine.induct) (auto split: option.splits)

lemma removeBlankFirstLine_cases:
  "removeBlankFirstLine bs = bs \<or>
   (\<exists>xs b ys. bs = xs @ b # ys \<and> isBlankLine b \<and> removeBlankFirstLine bs = xs @ ys)"
proof (induction bs rule: removeBlankFirstLine.induct)
  case 1
  then show ?case by simp
next
  case (2 f t rest)
  show ?case
  proof (cases "trim t = []")
    case True
    then have "Line f t # rest = [] @ Line f t # rest \<and> isBlankLine (Line f t) \<and>
        removeBlankFirstLine (Line f t # rest) = [] @ rest"
      by (simp add: isBlankLine_def)
    then show ?thesis by blast
  next
    case False
    then show ?thesis by simp
  qed
next
  case (3 i rest)
  then show ?case
  proof
    assume "removeBlankFirstLine rest = rest"
    then show ?thesis by simp
  next
    assume "\<exists>xs b ys. rest = xs @ b # ys \<and> isBlankLine b \<and> removeBlankFirstLine rest = xs @ ys"
    then obtain xs b ys where "rest = xs @ b # ys" "isBlankLine b" "removeBlankFirstLine rest = xs @ ys"
      by blast
    then have "ImageLine i # rest = (ImageLine i # xs) @ b # ys \<and> isBlankLine b \<and>
        removeBlankFirstLine (ImageLine i # rest) = (ImageLine i # xs) @ ys"
      by simp
    then show ?thesis by blast
  qed
qed

lemma butlast_last_concat: "2 \<le> length editor \<Longrightarrow> butlast editor @ [last editor] = editor"
  by (cases editor rule: rev_cases) auto

text \<open>
  The claim as stated fails where the next page starts with an image that is followed
  by an empty line: the code removes that line, although it is not the first block.
\<close>

theorem checkPageOverflow_step_counterexample:
  "MAX_PAGE_HEIGHT <
     contentHeight tall_offsetHeight (pages image_first_state ! currentPageIndex image_first_state) \<and>
   2 \<le> length (pages image_first_state ! currentPageIndex image_first_state) \<and>
   pages (fst (checkPageOverflow tall_offsetHeight image_first_state)) =
     [[Line None ''a''], [Line None ''b'', ImageLine (Some photo)]] \<and>
   spec_overflow_step image_first_state =
     [[Line None ''a''], [Line None ''b'', ImageLine (Some photo), Line None []]] \<and>
   pages (fst (checkPageOverflow tall_offsetHeight image_first_state)) \<noteq>
     spec_overflow_step image_first_state"
  by (simp add: checkPageOverflow_def image_first_state_def tall_offsetHeight_def
      contentHeight_def MAX_PAGE_HEIGHT_def spec_overflow_step_def spec_discardPlaceholder_def
      Let_def trim_def trimEnd_def)

text \<open>
  Claim C3, amended. Whenever the content height of the active page exceeds the
  budget and the page holds at least two blocks, one overflow step migrates and
  schedules a re-check. If the active page is the last page, a page with a single
  empty line in the current default font is appended, and it ends up holding exactly
  the migrated block (its placeholder line is discarded). Otherwise the last block
  of the active page is prepended to the next page after the first line of that
  page, wherever it stands among the blocks, has been removed if its text is empty
  or white space only. All other pages are unchanged.
\<close>

theorem checkPageOverflow_step:
  assumes "currentPageIndex s < length (pages s)"
      and "MAX_PAGE_HEIGHT < contentHeight offsetHeight (pages s ! currentPageIndex s)"
      and "2 \<le> length (pages s ! currentPageIndex s)"
  shows "snd (checkPageOverflow offsetHeight s) \<and>
         pages (fst (checkPageOverflow offsetHeight s)) =
           (if currentPageIndex s = length (pages s) - 1
            then take (currentPageIndex s) (pages s) @
                   [butlast (pages s ! currentPageIndex s), [last (pages s ! currentPageIndex s)]]
            else take (currentPageIndex s) (pages s) @
                   butlast (pages s ! currentPageIndex s) #
                   (last (pages s ! currentPageIndex s) #
                      removeBlankFirstLine (pages s ! (currentPageIndex s + 1))) #
                   drop (currentPageIndex s + 2) (pages s)) \<and>
         pages (createNewPage s) = pages s @ [[Line (Some (font s)) []]] \<and>
         (\<forall>bs. removeBlankFirstLine bs =
            (case firstLineIndex bs of
               None \<Rightarrow> bs
             | Some i \<Rightarrow> if trim (textContent (bs ! i)) = []
                          then take i bs @ drop (Suc i) bs else bs))"
proof (intro conjI allI)
  show "pages (createNewPage s) = pages s @ [[Line (Some (font s)) []]]"
    by (simp add: createNewPage_def)
next
  show mig: "snd (checkPageOverflow offsetHeight s)"
    using assms by (rule checkPageOverflow_migrates)
  then have "checkPageOverflow offsetHeight s = (fst (checkPageOverflow offsetHeight s), True)"
    by (simp add: prod_eq_iff)
  then obtain pre editor rest nxt rest' where
    ps: "pages s = pre @ editor # rest" and lp: "length pre = currentPageIndex s" and
    ps': "pages (fst (checkPageOverflow offsetHeight s)) =
            pre @ butlast editor # (last editor # removeBlankFirstLine nxt) # rest'" and
    alt: "(rest = [] \<and> nxt = [Line (Some (font s)) []] \<and> rest' = []) \<or> rest = nxt # rest'"
    by (rule checkPageOverflow_shape)
  from ps lp have tk: "take (currentPageIndex s) (pages s) = pre"
    and ed: "pages s ! currentPageIndex s = editor"
    by (simp_all add: nth_append)
  from alt show "pages (fst (checkPageOverflow offsetHeight s)) =
           (if currentPageIndex s = length (pages s) - 1
            then take (currentPageIndex s) (pages s) @
                   [butlast (pages s ! currentPageIndex s), [last (pages s ! currentPageIndex s)]]
            else take (currentPageIndex s) (pages s) @
                   butlast (pages s ! currentPageIndex s) #
                   (last (pages s ! currentPageIndex s) #
                      removeBlankFirstLine (pages s ! (currentPageIndex s + 1))) #
                   drop (currentPageIndex s + 2) (pages s))"
  proof
    assume a: "rest = [] \<and> nxt = [Line (Some (font s)) []] \<and> rest' = []"
    with ps lp have "currentPageIndex s = length (pages s) - 1" by simp
    with a ps' show ?thesis unfolding tk ed by (simp add: trim_Nil)
  next
    assume a: "rest = nxt # rest'"
    with ps lp have nl: "currentPageIndex s \<noteq> length (pages s) - 1" by simp
    from a ps lp have "pages s ! (currentPageIndex s + 1) = nxt"
      and "drop (currentPageIndex s + 2) (pages s) = rest'"
      by (simp_all add: nth_append)
    with nl ps' show ?thesis unfolding tk ed by simp
  qed
next
  fix bs
  show "removeBlankFirstLine bs =
            (case firstLineIndex bs of
               None \<Rightarrow> bs
             | Some i \<Rightarrow> if trim (textContent (bs ! i)) = []
                          then take i bs @ drop (Suc i) bs else bs)"
    by (rule removeBlankFirstLine_eq)
qed

theorem checkPageOverflow_step_witness:
  "currentPageIndex image_first_state < length (pages image_first_state) \<and>
   MAX_PAGE_HEIGHT <
     contentHeight tall_offsetHeight (pages image_first_state ! currentPageIndex image_first_state) \<and>
   2 \<le> length (pages image_first_state ! currentPageIndex image_first_state) \<and>
   snd (checkPageOverflow tall_offsetHeight image_first_state) \<and>
   pages (fst (checkPageOverflow tall_offsetHeight image_first_state)) =
     [[Line None ''a''], [Line None ''b'', ImageLine (Some photo)]]"
proof -
  have h1: "currentPageIndex image_first_state < length (pages image_first_state)"
    by (simp add: image_first_state_def)
  have h2: "MAX_PAGE_HEIGHT <
     contentHeight tall_offsetHeight (pages image_first_state ! currentPageIndex image_first_state)"
    by (simp add: image_first_state_def MAX_PAGE_HEIGHT_def contentHeight_def tall_offsetHeight_def)
  have h3: "2 \<le> length (pages image_first_state ! currentPageIndex image_first_state)"
    by (simp add: image_first_state_def)
  from checkPageOverflow_step [OF h1 h2 h3]
  have "snd (checkPageOverflow tall_offsetHeight image_first_state) \<and>
        pages (fst (checkPageOverflow tall_offsetHeight image_first_state)) =
          [[Line None ''a''], [Line None ''b'', ImageLine (Some photo)]]"
    by (simp add: image_first_state_def trim_Nil)
  with h1 h2 h3 show ?thesis by blast
qed

text \<open>
  The claim as stated fails where the next page exists and starts with an empty line:
  four blocks before the step, three after it.
\<close>

theorem checkPageOverflow_block_accounting_counterexample:
  "total_blocks (pages blank_first_state) = 4 \<and>
   total_blocks (pages (fst (checkPageOverflow tall_offsetHeight blank_first_state))) = 3"
  by (simp add: checkPageOverflow_def blank_first_state_def tall_offsetHeight_def
      contentHeight_def MAX_PAGE_HEIGHT_def Let_def trim_def trimEnd_def total_blocks_def)

text \<open>
  Claim C5, amended. A single overflow pass never duplicates a block and never loses
  a block other than a blank line: the non-blank blocks of the document, in page
  order, are the same before and after. The total number of blocks never grows and
  drops by at most one. When the active page is the last page, or the first line of
  the next page is not blank (or that page has no line), the sequence of all blocks
  in page order is unchanged, so the total is preserved. When a block migrates to
  an existing next page whose first line is blank, that line is discarded and the
  total drops by exactly one.
\<close>

theorem checkPageOverflow_block_accounting:
  "filter (\<lambda>b. \<not> isBlankLine b) (concat (pages (fst (checkPageOverflow h s)))) =
     filter (\<lambda>b. \<not> isBlankLine b) (concat (pages s)) \<and>
   total_blocks (pages (fst (checkPageOverflow h s))) \<le> total_blocks (pages s) \<and>
   total_blocks (pages s) \<le> total_blocks (pages (fst (checkPageOverflow h s))) + 1 \<and>
   (length (pages s) \<le> currentPageIndex s + 1 \<or>
    removeBlankFirstLine (pages s ! (currentPageIndex s + 1)) = pages s ! (currentPageIndex s + 1)
      \<longrightarrow> concat (pages (fst (checkPageOverflow h s))) = concat (pages s) \<and>
          total_blocks (pages (fst (checkPageOverflow h s))) = total_blocks (pages s)) \<and>
   (snd (checkPageOverflow h s) \<and> currentPageIndex s + 1 < length (pages s) \<and>
    removeBlankFirstLine (pages s ! (currentPageIndex s + 1)) \<noteq> pages s ! (currentPageIndex s + 1)
      \<longrightarrow> total_blocks (pages (fst (checkPageOverflow h s))) + 1 = total_blocks (pages s))"
proof (cases h s rule: checkPageOverflow_cases)
  case stay
  then show ?thesis by simp
next
  case (move s')
  then obtain pre editor rest nxt rest' where
    ps: "pages s = pre @ editor # rest" and lp: "length pre = currentPageIndex s" and
    len: "2 \<le> length editor" and
    ps': "pages s' = pre @ butlast editor # (last editor # removeBlankFirstLine nxt) # rest'" and
    alt: "(rest = [] \<and> nxt = [Line (Some (font s)) []] \<and> rest' = []) \<or> rest = nxt # rest'"
    by (rule checkPageOverflow_shape)
  have s': "fst (checkPageOverflow h s) = s'" using move by simp
  have "concat (pages s') =
      concat pre @ (butlast editor @ [last editor]) @ removeBlankFirstLine nxt @ concat rest'"
    using ps' by simp
  then have cat': "concat (pages s') = concat pre @ editor @ removeBlankFirstLine nxt @ concat rest'"
    by (simp only: butlast_last_concat [OF len])
  from alt show ?thesis
  proof
    assume a: "rest = [] \<and> nxt = [Line (Some (font s)) []] \<and> rest' = []"
    with ps lp have lastp: "\<not> currentPageIndex s + 1 < length (pages s)" by simp
    from a cat' ps have "concat (pages s') = concat (pages s)" by (simp add: trim_Nil)
    with lastp show ?thesis unfolding s' total_blocks_def by (simp add: length_concat [symmetric])
  next
    assume a: "rest = nxt # rest'"
    with ps lp have nx: "pages s ! (currentPageIndex s + 1) = nxt"
      and inner: "\<not> length (pages s) \<le> currentPageIndex s + 1"
      by (simp_all add: nth_append)
    from a ps have cat: "concat (pages s) = concat pre @ editor @ nxt @ concat rest'" by simp
    from removeBlankFirstLine_cases [of nxt] show ?thesis
    proof
      assume same: "removeBlankFirstLine nxt = nxt"
      with cat cat' have "concat (pages s') = concat (pages s)" by simp
      with same nx show ?thesis unfolding s' total_blocks_def
        by (simp add: length_concat [symmetric])
    next
      assume "\<exists>xs b ys. nxt = xs @ b # ys \<and> isBlankLine b \<and> removeBlankFirstLine nxt = xs @ ys"
      then obtain xs b ys where n: "nxt = xs @ b # ys" and b: "isBlankLine b"
        and r: "removeBlankFirstLine nxt = xs @ ys" by blast
      from n r have ne: "removeBlankFirstLine nxt \<noteq> nxt" by simp
      from cat cat' n r b have
        "filter (\<lambda>b. \<not> isBlankLine b) (concat (pages s')) =
         filter (\<lambda>b. \<not> isBlankLine b) (concat (pages s))"
        and "Suc (length (concat (pages s'))) = length (concat (pages s))"
        by simp_all
      with ne nx inner show ?thesis unfolding s' total_blocks_def
        by (simp add: length_concat [symmetric])
    qed
  qed
qed

theorem checkPageOverflow_block_accounting_witness:
  "filter (\<lambda>b. \<not> isBlankLine b)
     (concat (pages (fst (checkPageOverflow tall_offsetHeight blank_first_state)))) =
     [Line None ''a'', Line None ''b'', Line None ''c''] \<and>
   snd (checkPageOverflow tall_offsetHeight blank_first_state) \<and>
   currentPageIndex blank_first_state + 1 < length (pages blank_first_state) \<and>
   removeBlankFirstLine (pages blank_first_state ! (currentPageIndex blank_first_state + 1)) \<noteq>
     pages blank_first_state ! (currentPageIndex blank_first_state + 1) \<and>
   total_blocks (pages (fst (checkPageOverflow tall_offsetHeight blank_first_state))) + 1 =
     total_blocks (pages blank_first_state) \<and>
   length (pages two_returns_state) \<le> currentPageIndex two_returns_state + 1 \<and>
   concat (pages (fst (checkPageOverflow example_offsetHeight two_returns_state))) =
     concat (pages two_returns_state) \<and>
   total_blocks (pages (fst (checkPageOverflow example_offsetHeight two_returns_state))) =
     total_blocks (pages two_returns_state)"
proof -
  have f: "filter (\<lambda>b. \<not> isBlankLine b) (concat (pages blank_first_state)) =
      [Line None ''a'', Line None ''b'', Line None ''c'']"
    by (simp add: blank_first_state_def isBlankLine_def trim_def trimEnd_def is_ws_def)
  have m: "snd (checkPageOverflow tall_offsetHeight blank_first_state)"
    by (rule checkPageOverflow_migrates)
      (simp_all add: blank_first_state_def MAX_PAGE_HEIGHT_def contentHeight_def
        tall_offsetHeight_def)
  have i: "currentPageIndex blank_first_state + 1 < length (pages blank_first_state)"
    by (simp add: blank_first_state_def)
  have r: "removeBlankFirstLine (pages blank_first_state ! (currentPageIndex blank_first_state + 1)) \<noteq>
     pages blank_first_state ! (currentPageIndex blank_first_state + 1)"
    by (simp add: blank_first_state_def trim_Nil)
  have l: "length (pages two_returns_state) \<le> currentPageIndex two_returns_state + 1"
    by (simp add: two_returns_state_def)
  from checkPageOverflow_block_accounting [of tall_offsetHeight blank_first_state]
    checkPageOverflow_block_accounting [of example_offsetHeight two_returns_state] f m i r l
  show ?thesis by simp
qed

lemma checkPageOverflow_stay:
  assumes "checkPageOverflow h s = (s', False)"
  shows "s' = s"
    and "currentPageIndex s < length (pages s) \<Longrightarrow>
         contentHeight h (pages s ! currentPageIndex s) \<le> MAX_PAGE_HEIGHT \<or>
         length (pages s ! currentPageIndex s) \<le> 1"
  using assms by (auto simp: checkPageOverflow_def Let_def split: if_splits)

text \<open>When the chain ends, the page that is active then fits or has at most one block.\<close>

lemma checkPageOverflow_settle_active_page:
  "currentPageIndex (checkPageOverflow_settle h s) < length (pages (checkPageOverflow_settle h s)) \<Longrightarrow>
   contentHeight h (pages (checkPageOverflow_settle h s) ! currentPageIndex (checkPageOverflow_settle h s))
     \<le> MAX_PAGE_HEIGHT \<or>
   length (pages (checkPageOverflow_settle h s) ! currentPageIndex (checkPageOverflow_settle h s)) \<le> 1"
proof (induction h s rule: checkPageOverflow_settle.induct)
  case (1 h s)
  show ?case
  proof (cases h s rule: checkPageOverflow_cases)
    case stay
    then have "checkPageOverflow_settle h s = s"
      by (simp add: checkPageOverflow_settle.simps)
    with checkPageOverflow_stay(2) [OF stay] "1.prems" show ?thesis by simp
  next
    case (move s')
    then have eq: "checkPageOverflow_settle h s = checkPageOverflow_settle h s'"
      by (simp add: checkPageOverflow_settle.simps [of h s])
    from "1.IH" [of s' True] move "1.prems" show ?thesis unfolding eq by simp
  qed
qed

text \<open>
  A step that does not take the cursor along keeps the active page and removes its
  last block.
\<close>

lemma checkPageOverflow_cursor_stays:
  assumes "checkPageOverflow h s = (s', True)"
      and "cursorBlock s \<noteq> Some (length (pages s ! currentPageIndex s) - 1)"
  shows "currentPageIndex s' = currentPageIndex s"
    and "cursorBlock s' = cursorBlock s"
    and "pages s' ! currentPageIndex s = butlast (pages s ! currentPageIndex s)"
    and "currentPageIndex s < length (pages s')"
proof -
  from assms show "currentPageIndex s' = currentPageIndex s" "cursorBlock s' = cursorBlock s"
    by (auto simp: checkPageOverflow_def Let_def createNewPage_def split: if_splits)
  from assms(1) obtain pre editor rest nxt rest' where
    ps: "pages s = pre @ editor # rest" and lp: "length pre = currentPageIndex s" and
    ps': "pages s' = pre @ butlast editor # (last editor # removeBlankFirstLine nxt) # rest'"
    by (rule checkPageOverflow_shape)
  from ps ps' lp show "pages s' ! currentPageIndex s = butlast (pages s ! currentPageIndex s)"
    by (simp add: nth_append)
  from ps' lp show "currentPageIndex s < length (pages s')" by simp
qed

text \<open>
  Without a cursor in the active page, the chain behaves as the specification says:
  it stays on the source page and migrates the least number \<open>k\<close> of trailing blocks
  after which the page fits or is down to one block.
\<close>

lemma checkPageOverflow_settle_without_cursor:
  assumes "cursorBlock s = None" and "currentPageIndex s < length (pages s)"
  shows "\<exists>k. currentPageIndex (checkPageOverflow_settle h s) = currentPageIndex s \<and>
           pages (checkPageOverflow_settle h s) ! currentPageIndex s =
             take (length (pages s ! currentPageIndex s) - k) (pages s ! currentPageIndex s) \<and>
           k < max 1 (length (pages s ! currentPageIndex s)) \<and>
           (contentHeight h (pages (checkPageOverflow_settle h s) ! currentPageIndex s)
              \<le> MAX_PAGE_HEIGHT \<or>
            length (pages (checkPageOverflow_settle h s) ! currentPageIndex s) \<le> 1) \<and>
           (\<forall>j < k. MAX_PAGE_HEIGHT <
                contentHeight h (take (length (pages s ! currentPageIndex s) - j)
                  (pages s ! currentPageIndex s)))"
  using assms
proof (induction h s rule: checkPageOverflow_settle.induct)
  case (1 h s)
  let ?c = "currentPageIndex s"
  let ?e = "pages s ! ?c"
  show ?case
  proof (cases h s rule: checkPageOverflow_cases)
    case stay
    then have eq: "checkPageOverflow_settle h s = s"
      by (simp add: checkPageOverflow_settle.simps)
    from checkPageOverflow_stay(2) [OF stay "1.prems"(2)]
    have "contentHeight h ?e \<le> MAX_PAGE_HEIGHT \<or> length ?e \<le> 1" .
    then show ?thesis unfolding eq by (intro exI [of _ 0]) simp
  next
    case (move s')
    then have eq: "checkPageOverflow_settle h s = checkPageOverflow_settle h s'"
      by (simp add: checkPageOverflow_settle.simps [of h s])
    note ag = checkPageOverflow_again [OF move]
    from "1.prems"(1) have nc: "cursorBlock s \<noteq> Some (length ?e - 1)" by simp
    note st = checkPageOverflow_cursor_stays [OF move nc]
    from st "1.prems" have p1: "cursorBlock s' = None" and p2: "currentPageIndex s' < length (pages s')"
      by simp_all
    from "1.IH" [of s' True, OF move [symmetric] _ p1 p2] obtain k where
      k1: "currentPageIndex (checkPageOverflow_settle h s') = currentPageIndex s'" and
      k2: "pages (checkPageOverflow_settle h s') ! currentPageIndex s' =
             take (length (pages s' ! currentPageIndex s') - k) (pages s' ! currentPageIndex s')" and
      k3: "k < max 1 (length (pages s' ! currentPageIndex s'))" and
      k4: "contentHeight h (pages (checkPageOverflow_settle h s') ! currentPageIndex s')
              \<le> MAX_PAGE_HEIGHT \<or>
            length (pages (checkPageOverflow_settle h s') ! currentPageIndex s') \<le> 1" and
      k5: "\<forall>j < k. MAX_PAGE_HEIGHT <
                contentHeight h (take (length (pages s' ! currentPageIndex s') - j)
                  (pages s' ! currentPageIndex s'))"
      by auto
    have bl: "pages s' ! ?c = take (length ?e - 1) ?e" using st(3) by (simp add: butlast_conv_take)
    have tk: "\<And>j. take (length (pages s' ! ?c) - j) (pages s' ! ?c) = take (length ?e - Suc j) ?e"
      unfolding bl by (simp add: min_def)
    have len': "length (pages s' ! ?c) = length ?e - 1" unfolding bl by simp
    show ?thesis
    proof (intro exI [of _ "Suc k"] conjI allI impI)
      show "currentPageIndex (checkPageOverflow_settle h s) = ?c"
        unfolding eq using k1 st(1) by simp
      show "pages (checkPageOverflow_settle h s) ! ?c = take (length ?e - Suc k) ?e"
        unfolding eq using k2 st(1) tk by simp
      show "Suc k < max 1 (length ?e)"
        using k3 ag(3) st(1) len' by auto
      show "contentHeight h (pages (checkPageOverflow_settle h s) ! ?c) \<le> MAX_PAGE_HEIGHT \<or>
            length (pages (checkPageOverflow_settle h s) ! ?c) \<le> 1"
        unfolding eq using k4 st(1) by simp
    next
      fix j assume j: "j < Suc k"
      show "MAX_PAGE_HEIGHT < contentHeight h (take (length ?e - j) ?e)"
      proof (cases j)
        case 0
        with ag(2) show ?thesis by simp
      next
        case (Suc j')
        with j have "j' < k" by simp
        with k5 have "MAX_PAGE_HEIGHT <
            contentHeight h (take (length (pages s' ! currentPageIndex s') - j')
              (pages s' ! currentPageIndex s'))" by blast
        then show ?thesis unfolding st(1) tk [of j'] Suc .
      qed
    qed
  qed
qed

text \<open>
  Claim C4 at the input \<open>two_returns_state\<close>. The chain of overflow checks
  terminates (\<open>checkPageOverflow_settle\<close> is total), but the migrated line takes the
  cursor with it and the re-check runs on the page that has become active: the
  source page keeps 36 blocks and a content height of 1232 pixels, above the budget.
  Two migrations are needed for the source page to fit, and two are made when the
  cursor is not in the migrated line.
\<close>

theorem checkPageOverflow_settle_leaves_overflow:
  "contentHeight example_offsetHeight (pages two_returns_state ! 0) = 1264 \<and>
   checkPageOverflow_settle example_offsetHeight two_returns_state =
     \<lparr>pages = [replicate 36 (Line (Some ''special-elite'') ''x''),
               [Line (Some ''special-elite'') ''y'']],
      currentPageIndex = 1, font = ''special-elite'', cursorBlock = Some 0\<rparr> \<and>
   contentHeight example_offsetHeight
     (pages (checkPageOverflow_settle example_offsetHeight two_returns_state) ! 0) = 1232 \<and>
   length (pages (checkPageOverflow_settle example_offsetHeight two_returns_state) ! 0) = 36 \<and>
   pages (checkPageOverflow_settle example_offsetHeight (two_returns_state\<lparr>cursorBlock := None\<rparr>)) =
     [replicate 35 (Line (Some ''special-elite'') ''x''),
      [Line (Some ''special-elite'') ''x'', Line (Some ''special-elite'') ''y'']]"
  by code_simp

theorem checkPageOverflow_settle_leaves_overflow_witness:
  "currentPageIndex (checkPageOverflow_settle example_offsetHeight two_returns_state) = 1 \<and>
   MAX_PAGE_HEIGHT <
     contentHeight example_offsetHeight
       (pages (checkPageOverflow_settle example_offsetHeight two_returns_state) ! 0)"
proof -
  note settled = checkPageOverflow_settle_leaves_overflow
  from settled have st:
    "checkPageOverflow_settle example_offsetHeight two_returns_state =
       \<lparr>pages = [replicate 36 (Line (Some ''special-elite'') ''x''),
                 [Line (Some ''special-elite'') ''y'']],
        currentPageIndex = 1, font = ''special-elite'', cursorBlock = Some 0\<rparr>"
    by blast
  from settled have h:
    "contentHeight example_offsetHeight
       (pages (checkPageOverflow_settle example_offsetHeight two_returns_state) ! 0) = 1232"
    by blast
  have "currentPageIndex (checkPageOverflow_settle example_offsetHeight two_returns_state) = 1"
    by (simp add: st)
  then show ?thesis unfolding h MAX_PAGE_HEIGHT_def by simp
qed

section \<open>Properties of the plain-text export\<close>

lemma foldl_lines: "foldl (\<lambda>acc line. acc @ line @ ''\<newline>'') out ls = out @ concat (map (\<lambda>line. line @ ''\<newline>'') ls)"
  by (induction ls arbitrary: out) simp_all

lemma getEditorText_loop_step:
  assumes "n = pageIndex + Suc (length rest)"
  shows "getEditorText_loop n pageIndex (page # rest) out =
         getEditorText_loop n (pageIndex + 1) rest
           (out @ page_text page @
              (if rest \<noteq> [] then page_separator ''Seite'' (pageIndex + 2) else []))"
proof -
  from assms have "(int pageIndex < int n - 1) = (rest \<noteq> [])" by auto
  then show ?thesis
    by (simp add: foldl_lines page_text_def page_separator_def Let_def)
qed

lemma joined_pages_Cons:
  "joined_pages word n (page # rest) =
     page_text page @ (if rest \<noteq> [] then page_separator word (n + 1) @ joined_pages word (n + 1) rest else [])"
  by (cases rest) simp_all

lemma getEditorText_loop_eq:
  "n = pageIndex + length ps \<Longrightarrow>
   getEditorText_loop n pageIndex ps out = out @ joined_pages ''Seite'' (pageIndex + 1) ps"
proof (induction ps arbitrary: pageIndex out)
  case Nil
  then show ?case by simp
next
  case (Cons page rest)
  from Cons.prems have n: "n = pageIndex + Suc (length rest)" and n': "n = (pageIndex + 1) + length rest"
    by simp_all
  show ?case
    unfolding getEditorText_loop_step [OF n] Cons.IH [OF n'] joined_pages_Cons [of _ _ page rest]
    by simp
qed

text \<open>
  Claim C6, amended. For every document, the plain-text export is the concatenation
  of the line contents of every page in order (image lines skipped), one line per
  line terminator, with the separator "\<newline>--- Seite n ---\<newline>\<newline>" (n the 1-based number
  of the page that follows) between consecutive pages, and trailing white space
  trimmed; a two-page document with pages ["A"] and ["B"] exports to
  "A\<newline>\<newline>--- Seite 2 ---\<newline>\<newline>B".
\<close>

theorem getEditorText_export:
  "getEditorText ps = plain_text_export ''Seite'' ps \<and>
   getEditorText [[Line f ''A''], [Line g ''B'']] = ''A\<newline>\<newline>--- Seite 2 ---\<newline>\<newline>B''"
proof
  show eq: "getEditorText ps = plain_text_export ''Seite'' ps" for ps
    using getEditorText_loop_eq [of "length ps" 0 ps "[]"]
    by (simp add: getEditorText_def plain_text_export_def)
  show "getEditorText [[Line f ''A''], [Line g ''B'']] = ''A\<newline>\<newline>--- Seite 2 ---\<newline>\<newline>B''"
    unfolding eq
    by (simp add: plain_text_export_def page_text_def page_separator_def trimEnd_def is_ws_def
        string_of_nat.simps)
qed

text \<open>The claim as stated fails: the separator does not read "Page".\<close>

theorem getEditorText_two_pages_counterexample:
  "getEditorText [[Line None ''A''], [Line None ''B'']] \<noteq> ''A\<newline>\<newline>--- Page 2 ---\<newline>\<newline>B'' \<and>
   getEditorText [[Line None ''A''], [Line None ''B'']] \<noteq>
     plain_text_export ''Page'' [[Line None ''A''], [Line None ''B'']]"
  by code_simp

theorem getEditorText_export_witness:
  "getEditorText [[Line None ''Hello World'']] = ''Hello World'' \<and>
   getEditorText [[Line None ''A''], [Line None ''B'']] = ''A\<newline>\<newline>--- Seite 2 ---\<newline>\<newline>B''"
proof -
  have "plain_text_export ''Seite'' [[Line None ''Hello World'']] = ''Hello World''"
    by (simp add: plain_text_export_def page_text_def trimEnd_def is_ws_def)
  with getEditorText_export [of "[[Line None ''Hello World'']]" None None]
  show ?thesis by simp
qed

section \<open>Properties of the PNG export\<close>

lemma all_dropWhile_iff: "(\<forall>x \<in> set (dropWhile P s). P x) = (\<forall>x \<in> set s. P x)"
proof
  assume a: "\<forall>x \<in> set (dropWhile P s). P x"
  show "\<forall>x \<in> set s. P x"
  proof (rule ccontr)
    assume "\<not> (\<forall>x \<in> set s. P x)"
    then have ne: "dropWhile P s \<noteq> []" by (simp add: dropWhile_eq_Nil_conv)
    then have "\<not> P (hd (dropWhile P s))" by (rule hd_dropWhile)
    moreover from ne have "hd (dropWhile P s) \<in> set (dropWhile P s)" by simp
    ultimately show False using a by blast
  qed
next
  assume "\<forall>x \<in> set s. P x"
  then show "\<forall>x \<in> set (dropWhile P s). P x" by (blast dest: set_dropWhileD)
qed

lemma trim_eq_Nil_iff: "(trim s = []) = (\<forall>ch \<in> set s. is_ws ch)"
  by (simp add: trim_def trimEnd_def all_dropWhile_iff)

lemma filterBtn_label_visible: "\<exists>ch \<in> set filterBtn_label. \<not> is_ws ch"
  by (simp add: filterBtn_label_def is_ws_def)

lemma block_visible_iff:
  "((\<exists>ch \<in> set (case b of Line f t \<Rightarrow> t | ImageLine i \<Rightarrow> filterBtn_label). \<not> is_ws ch) \<or>
    isImageLine b) =
   (case b of Line f t \<Rightarrow> \<exists>ch \<in> set t. \<not> is_ws ch | ImageLine i \<Rightarrow> True)"
  by (cases b) (simp_all add: isImageLine_def)

lemma hasContent_iff:
  "hasContent editor =
     (\<exists>b \<in> set editor. case b of Line f t \<Rightarrow> \<exists>ch \<in> set t. \<not> is_ws ch | ImageLine i \<Rightarrow> True)"
proof -
  have tc: "(trim (editor_textContent editor) \<noteq> []) =
      (\<exists>b \<in> set editor. \<exists>ch \<in> set (case b of Line f t \<Rightarrow> t | ImageLine i \<Rightarrow> filterBtn_label). \<not> is_ws ch)"
    by (simp add: trim_eq_Nil_iff editor_textContent_def)
  have imgs: "(filter isImageLine editor \<noteq> []) = (\<exists>b \<in> set editor. isImageLine b)"
    by (simp add: filter_empty_conv)
  have "hasContent editor =
      (\<exists>b \<in> set editor.
         (\<exists>ch \<in> set (case b of Line f t \<Rightarrow> t | ImageLine i \<Rightarrow> filterBtn_label). \<not> is_ws ch) \<or>
         isImageLine b)"
    unfolding hasContent_def Let_def length_greater_0_conv tc imgs by blast
  then show ?thesis by (simp only: block_visible_iff)
qed

lemma savePNG_write_loop_ok:
  assumes "\<forall>editor \<in> set pwc. canvas_ok c editor"
      and "\<forall>k. writeFile_ok c (folderPath @ ''/'' @ page_fileName k)"
  shows "savePNG_write_loop c folderPath i pwc =
     (concat (map (\<lambda>(k, editor).
        [Render editor, WriteFile (folderPath @ ''/'' @ page_fileName k) editor])
       (enumerate i pwc)), Inr ())"
  using assms by (induction pwc arbitrary: i) simp_all

lemma savePNG_write_loop_no_prompt:
  "savePNG_write_loop c folderPath i pwc = (evs, r) \<Longrightarrow> filter isPrompt evs = []"
  by (induction pwc arbitrary: i evs r)
    (auto simp: isPrompt_def Let_def split: prod.splits if_splits)

lemma savePNG_write_loop_fails:
  assumes "\<forall>editor \<in> set pwc. canvas_ok c editor"
      and "k < length pwc" "\<not> writeFile_ok c (folderPath @ ''/'' @ page_fileName (i + k))"
  shows "\<exists>evs path. savePNG_write_loop c folderPath i pwc = (evs, Inl (WriteFailed path)) \<and>
           \<not> writeFile_ok c path"
  using assms
proof (induction pwc arbitrary: i k)
  case Nil
  then show ?case by simp
next
  case (Cons editor rest)
  show ?case
  proof (cases "writeFile_ok c (folderPath @ ''/'' @ page_fileName i)")
    case False
    with Cons.prems show ?thesis by (simp add: Let_def)
  next
    case True
    with Cons.prems obtain k' where k': "k = Suc k'" by (cases k) auto
    with Cons.prems have "\<forall>editor \<in> set rest. canvas_ok c editor" "k' < length rest"
      "\<not> writeFile_ok c (folderPath @ ''/'' @ page_fileName ((i + 1) + k'))"
      by simp_all
    from Cons.IH [OF this] obtain evs path where
      "savePNG_write_loop c folderPath (i + 1) rest = (evs, Inl (WriteFailed path))"
      "\<not> writeFile_ok c path" by blast
    with True Cons.prems show ?thesis by simp
  qed
qed

lemma savePNG_fallback_ok:
  assumes "\<forall>editor \<in> set pwc. canvas_ok c editor"
  shows "savePNG_fallback c n i pwc =
     (concat (map (\<lambda>(k, editor).
        Render editor # Download (if n = 1 then ''dokument.png'' else page_fileName k) editor #
        (if Suc k < n then [Delay 500] else []))
       (enumerate i pwc)), Inr ())"
  using assms
proof (induction pwc arbitrary: i)
  case Nil
  then show ?case by simp
next
  case (Cons editor rest)
  have "(int i < int n - 1) = (Suc i < n)" by auto
  with Cons show ?case by simp
qed

lemma savePNG_fallback_no_prompt:
  "savePNG_fallback c n i pwc = (evs, r) \<Longrightarrow> filter isPrompt evs = []"
  by (induction pwc arbitrary: i evs r)
    (auto simp: isPrompt_def Let_def split: prod.splits if_splits)

lemma savePNG_returns: "snd (savePNG c ps) = Inr ()"
  by (simp add: savePNG_def Let_def split: prod.splits sum.splits)

text \<open>The events of \<open>savePNG\<close> in terms of its two phases.\<close>

lemma savePNG_events:
  assumes "pagesWithContent ps \<noteq> []"
  shows "fst (savePNG c ps) =
     (case savePNG_try c (pagesWithContent ps) of
        (evs, Inr u) \<Rightarrow> evs
      | (evs, Inl e) \<Rightarrow>
          evs @ LogError e #
            (case savePNG_fallback c (length (pagesWithContent ps)) 0 (pagesWithContent ps) of
               (evs', Inr u) \<Rightarrow> evs'
             | (evs', Inl e') \<Rightarrow> evs' @ [LogError e']))"
  using assms by (simp add: savePNG_def Let_def split: prod.splits sum.splits)

lemma savePNG_events_ok:
  assumes "pagesWithContent ps \<noteq> []" "savePNG_try c (pagesWithContent ps) = (evs, Inr u)"
  shows "fst (savePNG c ps) = evs"
  using assms by (simp add: savePNG_events)

lemma savePNG_events_failed:
  assumes "pagesWithContent ps \<noteq> []" "savePNG_try c (pagesWithContent ps) = (evs, Inl e)"
      and "\<forall>editor \<in> set (pagesWithContent ps). canvas_ok c editor"
  shows "fst (savePNG c ps) = evs @ LogError e # download_events (pagesWithContent ps)"
  using assms(1,2) savePNG_fallback_ok [OF assms(3), of "length (pagesWithContent ps)" 0]
  by (simp add: savePNG_events download_events_def)

lemma savePNG_prompts:
  assumes "pagesWithContent ps \<noteq> []"
  shows "filter isPrompt (fst (savePNG c ps)) =
         filter isPrompt (fst (savePNG_try c (pagesWithContent ps)))"
  using assms
  by (auto simp: savePNG_events isPrompt_def split: prod.splits sum.splits
      dest: savePNG_fallback_no_prompt)

lemma savePNG_single_shape:
  assumes "canvas_ok c editor"
  shows "\<exists>rest r. savePNG_single c editor =
            (Render editor # PromptSave ''dokument.png'' # rest, r) \<and> filter isPrompt rest = []"
  using assms
  by (cases "dialog_save c") (simp_all add: savePNG_single_def isPrompt_def)

lemma savePNG_multi_shape:
  "\<exists>rest r. savePNG_multi c pwc = (PromptOpen # rest, r) \<and> filter isPrompt rest = []"
proof (cases "dialog_open c")
  case (Chosen folderPath)
  obtain evs r where w: "savePNG_write_loop c folderPath 0 pwc = (evs, r)"
    by (cases "savePNG_write_loop c folderPath 0 pwc")
  from savePNG_write_loop_no_prompt [OF w] w Chosen show ?thesis
    by (simp add: savePNG_multi_def)
next
  case Cancelled
  then show ?thesis by (simp add: savePNG_multi_def)
next
  case DialogError
  then show ?thesis by (simp add: savePNG_multi_def)
qed

lemma savePNG_prefix:
  assumes "pagesWithContent ps \<noteq> []"
      and "savePNG_try c (pagesWithContent ps) = (evs, r)"
  shows "\<exists>more. fst (savePNG c ps) = evs @ more"
  using assms by (cases r) (auto simp: savePNG_events split: prod.splits sum.splits)

lemma download_events_single:
  "download_events [editor] = [Render editor, Download ''dokument.png'' editor]"
  by (simp add: download_events_def)

lemma savePNG_single_page:
  assumes pwc: "pagesWithContent ps = [editor]" and ok: "canvas_ok c editor"
  shows "take 2 (fst (savePNG c ps)) = [Render editor, PromptSave ''dokument.png'']"
    and "filter isPrompt (fst (savePNG c ps)) = [PromptSave ''dokument.png'']"
    and "dialog_save c = Chosen filePath \<Longrightarrow> filePath \<noteq> [] \<Longrightarrow> writeFile_ok c filePath \<Longrightarrow>
         fst (savePNG c ps) = [Render editor, PromptSave ''dokument.png'', WriteFile filePath editor]"
    and "dialog_save c = Cancelled \<Longrightarrow>
         fst (savePNG c ps) = [Render editor, PromptSave ''dokument.png'']"
    and "dialog_save c = DialogError \<Longrightarrow>
         fst (savePNG c ps) =
           [Render editor, PromptSave ''dokument.png'', LogError DialogFailed] @
           download_events [editor]"
    and "dialog_save c = Chosen filePath \<Longrightarrow> filePath \<noteq> [] \<Longrightarrow> \<not> writeFile_ok c filePath \<Longrightarrow>
         fst (savePNG c ps) =
           [Render editor, PromptSave ''dokument.png'', WriteFile filePath editor,
            LogError (WriteFailed filePath)] @ download_events [editor]"
proof -
  have ne: "pagesWithContent ps \<noteq> []" using pwc by simp
  have tr: "savePNG_try c (pagesWithContent ps) = savePNG_single c editor"
    using pwc by (simp add: savePNG_try_def)
  have allok: "\<forall>e \<in> set (pagesWithContent ps). canvas_ok c e" using pwc ok by simp
  from savePNG_single_shape [OF ok] obtain rest r where
    sh: "savePNG_single c editor = (Render editor # PromptSave ''dokument.png'' # rest, r)"
    and np: "filter isPrompt rest = []" by blast
  from savePNG_prefix [OF ne, of c] tr sh obtain more where
    "fst (savePNG c ps) = (Render editor # PromptSave ''dokument.png'' # rest) @ more" by auto
  then show "take 2 (fst (savePNG c ps)) = [Render editor, PromptSave ''dokument.png'']"
    by simp
  from savePNG_prompts [OF ne, of c] tr sh np
  show "filter isPrompt (fst (savePNG c ps)) = [PromptSave ''dokument.png'']"
    by (simp add: isPrompt_def)
  {
    assume "dialog_save c = Chosen filePath" "filePath \<noteq> []" "writeFile_ok c filePath"
    with ok have "savePNG_try c (pagesWithContent ps) =
        ([Render editor, PromptSave ''dokument.png'', WriteFile filePath editor], Inr ())"
      unfolding tr by (simp add: savePNG_single_def)
    from savePNG_events_ok [OF ne this]
    show "fst (savePNG c ps) = [Render editor, PromptSave ''dokument.png'', WriteFile filePath editor]" .
  }
  {
    assume "dialog_save c = Cancelled"
    with ok have "savePNG_try c (pagesWithContent ps) =
        ([Render editor, PromptSave ''dokument.png''], Inr ())"
      unfolding tr by (simp add: savePNG_single_def)
    from savePNG_events_ok [OF ne this]
    show "fst (savePNG c ps) = [Render editor, PromptSave ''dokument.png'']" .
  }
  {
    assume "dialog_save c = DialogError"
    with ok have "savePNG_try c (pagesWithContent ps) =
        ([Render editor, PromptSave ''dokument.png''], Inl DialogFailed)"
      unfolding tr by (simp add: savePNG_single_def)
    from savePNG_events_failed [OF ne this allok]
    show "fst (savePNG c ps) =
           [Render editor, PromptSave ''dokument.png'', LogError DialogFailed] @
           download_events [editor]"
      by (simp add: pwc)
  }
  {
    assume "dialog_save c = Chosen filePath" "filePath \<noteq> []" "\<not> writeFile_ok c filePath"
    with ok have "savePNG_try c (pagesWithContent ps) =
        ([Render editor, PromptSave ''dokument.png'', WriteFile filePath editor],
         Inl (WriteFailed filePath))"
      unfolding tr by (simp add: savePNG_single_def)
    from savePNG_events_failed [OF ne this allok]
    show "fst (savePNG c ps) =
           [Render editor, PromptSave ''dokument.png'', WriteFile filePath editor,
            LogError (WriteFailed filePath)] @ download_events [editor]"
      by (simp add: pwc)
  }
qed

lemma savePNG_many_pages:
  assumes many: "1 < length (pagesWithContent ps)"
  shows "take 1 (fst (savePNG c ps)) = [PromptOpen]"
    and "filter isPrompt (fst (savePNG c ps)) = [PromptOpen]"
    and "dialog_open c = Cancelled \<Longrightarrow> fst (savePNG c ps) = [PromptOpen]"
    and "dialog_open c = Chosen folderPath \<Longrightarrow> folderPath \<noteq> [] \<Longrightarrow>
         \<forall>e \<in> set (pagesWithContent ps). canvas_ok c e \<Longrightarrow>
         \<forall>k. writeFile_ok c (folderPath @ ''/'' @ page_fileName k) \<Longrightarrow>
         fst (savePNG c ps) = PromptOpen # written_events folderPath (pagesWithContent ps)"
    and "dialog_open c = DialogError \<Longrightarrow> \<forall>e \<in> set (pagesWithContent ps). canvas_ok c e \<Longrightarrow>
         fst (savePNG c ps) =
           PromptOpen # LogError DialogFailed # download_events (pagesWithContent ps)"
    and "dialog_open c = Chosen folderPath \<Longrightarrow> folderPath \<noteq> [] \<Longrightarrow>
         \<forall>e \<in> set (pagesWithContent ps). canvas_ok c e \<Longrightarrow>
         k < length (pagesWithContent ps) \<Longrightarrow>
         \<not> writeFile_ok c (folderPath @ ''/'' @ page_fileName k) \<Longrightarrow>
         \<exists>evs path. \<not> writeFile_ok c path \<and>
           fst (savePNG c ps) =
             PromptOpen # evs @ LogError (WriteFailed path) # download_events (pagesWithContent ps)"
proof -
  have ne: "pagesWithContent ps \<noteq> []" using many by auto
  have tr: "savePNG_try c (pagesWithContent ps) = savePNG_multi c (pagesWithContent ps)"
    using many by (simp add: savePNG_try_def)
  from savePNG_multi_shape [of c "pagesWithContent ps"] obtain rest r where
    sh: "savePNG_multi c (pagesWithContent ps) = (PromptOpen # rest, r)"
    and np: "filter isPrompt rest = []" by blast
  from savePNG_prefix [OF ne, of c] tr sh obtain more where
    "fst (savePNG c ps) = (PromptOpen # rest) @ more" by auto
  then show "take 1 (fst (savePNG c ps)) = [PromptOpen]" by simp
  from savePNG_prompts [OF ne, of c] tr sh np
  show "filter isPrompt (fst (savePNG c ps)) = [PromptOpen]"
    by (simp add: isPrompt_def)
  {
    assume "dialog_open c = Cancelled"
    then have "savePNG_try c (pagesWithContent ps) = ([PromptOpen], Inr ())"
      unfolding tr by (simp add: savePNG_multi_def)
    from savePNG_events_ok [OF ne this] show "fst (savePNG c ps) = [PromptOpen]" .
  }
  {
    assume d: "dialog_open c = Chosen folderPath" "folderPath \<noteq> []"
      and allok: "\<forall>e \<in> set (pagesWithContent ps). canvas_ok c e"
      and w: "\<forall>k. writeFile_ok c (folderPath @ ''/'' @ page_fileName k)"
    from d savePNG_write_loop_ok [OF allok w, of 0]
    have "savePNG_try c (pagesWithContent ps) =
        (PromptOpen # written_events folderPath (pagesWithContent ps), Inr ())"
      unfolding tr by (simp add: savePNG_multi_def written_events_def)
    from savePNG_events_ok [OF ne this]
    show "fst (savePNG c ps) = PromptOpen # written_events folderPath (pagesWithContent ps)" .
  }
  {
    assume d: "dialog_open c = DialogError"
      and allok: "\<forall>e \<in> set (pagesWithContent ps). canvas_ok c e"
    from d have "savePNG_try c (pagesWithContent ps) = ([PromptOpen], Inl DialogFailed)"
      unfolding tr by (simp add: savePNG_multi_def)
    from savePNG_events_failed [OF ne this allok]
    show "fst (savePNG c ps) =
           PromptOpen # LogError DialogFailed # download_events (pagesWithContent ps)"
      by simp
  }
  {
    assume d: "dialog_open c = Chosen folderPath" "folderPath \<noteq> []"
      and allok: "\<forall>e \<in> set (pagesWithContent ps). canvas_ok c e"
      and k: "k < length (pagesWithContent ps)"
        "\<not> writeFile_ok c (folderPath @ ''/'' @ page_fileName k)"
    from k have "\<not> writeFile_ok c (folderPath @ ''/'' @ page_fileName (0 + k))" by simp
    from savePNG_write_loop_fails [OF allok k(1) this] obtain evs path where
      w: "savePNG_write_loop c folderPath 0 (pagesWithContent ps) = (evs, Inl (WriteFailed path))"
      and bad: "\<not> writeFile_ok c path" by blast
    from d w have "savePNG_try c (pagesWithContent ps) = (PromptOpen # evs, Inl (WriteFailed path))"
      unfolding tr by (simp add: savePNG_multi_def)
    from savePNG_events_failed [OF ne this allok] bad
    show "\<exists>evs path. \<not> writeFile_ok c path \<and>
           fst (savePNG c ps) =
             PromptOpen # evs @ LogError (WriteFailed path) # download_events (pagesWithContent ps)"
      by auto
  }
qed

lemma pagesWithContent_middle:
  "\<not> hasContent p1 \<Longrightarrow> hasContent p2 \<Longrightarrow> \<not> hasContent p3 \<Longrightarrow>
   pagesWithContent [p1, p2, p3] = [p2]"
  by (simp add: pagesWithContent_def)

lemma savePNG_nothing: "pagesWithContent ps = [] \<Longrightarrow> savePNG c ps = ([], Inr ())"
  by (simp add: savePNG_def)

text \<open>
  Claim C7. The PNG export qualifies exactly the pages with a character that is not
  white space in some line, or with at least one image. With no qualifying page it
  does nothing. With exactly one (and a page that renders) it renders that page
  first and issues the single-file save prompt, its only prompt; when a path is
  chosen and the write succeeds, that is all it does. With more than one it prompts
  once, for a directory, before anything else; when a directory is chosen and every
  page renders and is written, it writes one numbered file per qualifying page in
  page order. So a three-page document in which only page 2 has content takes the
  single-page path.
\<close>

theorem savePNG_selection:
  "pagesWithContent ps =
     filter (\<lambda>editor. \<exists>b \<in> set editor.
        case b of Line f t \<Rightarrow> \<exists>ch \<in> set t. \<not> is_ws ch | ImageLine i \<Rightarrow> True) ps \<and>
   (pagesWithContent ps = [] \<longrightarrow> savePNG c ps = ([], Inr ())) \<and>
   (pagesWithContent ps = [editor] \<and> canvas_ok c editor \<longrightarrow>
      take 2 (fst (savePNG c ps)) = [Render editor, PromptSave ''dokument.png''] \<and>
      filter isPrompt (fst (savePNG c ps)) = [PromptSave ''dokument.png''] \<and>
      (dialog_save c = Chosen filePath \<and> filePath \<noteq> [] \<and> writeFile_ok c filePath \<longrightarrow>
         fst (savePNG c ps) =
           [Render editor, PromptSave ''dokument.png'', WriteFile filePath editor])) \<and>
   (1 < length (pagesWithContent ps) \<longrightarrow>
      take 1 (fst (savePNG c ps)) = [PromptOpen] \<and>
      filter isPrompt (fst (savePNG c ps)) = [PromptOpen] \<and>
      (dialog_open c = Chosen folderPath \<and> folderPath \<noteq> [] \<and>
       (\<forall>e \<in> set (pagesWithContent ps). canvas_ok c e) \<and>
       (\<forall>k. writeFile_ok c (folderPath @ ''/'' @ page_fileName k)) \<longrightarrow>
         fst (savePNG c ps) = PromptOpen # written_events folderPath (pagesWithContent ps))) \<and>
   (\<not> hasContent p1 \<and> hasContent p2 \<and> \<not> hasContent p3 \<longrightarrow>
      pagesWithContent [p1, p2, p3] = [p2])"
proof (intro conjI impI)
  show "pagesWithContent ps =
     filter (\<lambda>editor. \<exists>b \<in> set editor.
        case b of Line f t \<Rightarrow> \<exists>ch \<in> set t. \<not> is_ws ch | ImageLine i \<Rightarrow> True) ps"
    unfolding pagesWithContent_def by (rule filter_cong) (simp_all add: hasContent_iff)
next
  assume "pagesWithContent ps = []"
  then show "savePNG c ps = ([], Inr ())" by (rule savePNG_nothing)
next
  assume a: "pagesWithContent ps = [editor] \<and> canvas_ok c editor"
  then show "take 2 (fst (savePNG c ps)) = [Render editor, PromptSave ''dokument.png'']"
    by (simp add: savePNG_single_page(1))
  from a show "filter isPrompt (fst (savePNG c ps)) = [PromptSave ''dokument.png'']"
    by (simp add: savePNG_single_page(2))
  assume "dialog_save c = Chosen filePath \<and> filePath \<noteq> [] \<and> writeFile_ok c filePath"
  with a show "fst (savePNG c ps) =
           [Render editor, PromptSave ''dokument.png'', WriteFile filePath editor]"
    by (simp add: savePNG_single_page(3))
next
  assume a: "1 < length (pagesWithContent ps)"
  then show "take 1 (fst (savePNG c ps)) = [PromptOpen]" by (rule savePNG_many_pages(1))
  from a show "filter isPrompt (fst (savePNG c ps)) = [PromptOpen]"
    by (rule savePNG_many_pages(2))
  assume "dialog_open c = Chosen folderPath \<and> folderPath \<noteq> [] \<and>
       (\<forall>e \<in> set (pagesWithContent ps). canvas_ok c e) \<and>
       (\<forall>k. writeFile_ok c (folderPath @ ''/'' @ page_fileName k))"
  with a show "fst (savePNG c ps) = PromptOpen # written_events folderPath (pagesWithContent ps)"
    by (simp add: savePNG_many_pages(4))
next
  assume "\<not> hasContent p1 \<and> hasContent p2 \<and> \<not> hasContent p3"
  then show "pagesWithContent [p1, p2, p3] = [p2]" by (simp add: pagesWithContent_middle)
qed

lemma pagesWithContent_only_page_two: "pagesWithContent only_page_two = [[Line None ''B'']]"
  by (simp add: pagesWithContent_def only_page_two_def hasContent_def editor_textContent_def
      isImageLine_def trim_def trimEnd_def is_ws_def)

lemma pagesWithContent_three_full_pages: "pagesWithContent three_full_pages = three_full_pages"
  by (simp add: pagesWithContent_def three_full_pages_def hasContent_def editor_textContent_def
      isImageLine_def trim_def trimEnd_def is_ws_def filterBtn_label_def)

theorem savePNG_selection_witness:
  "pagesWithContent only_page_two = [[Line None ''B'']] \<and>
   fst (savePNG all_ok only_page_two) =
     [Render [Line None ''B''], PromptSave ''dokument.png'',
      WriteFile ''/tmp/out.png'' [Line None ''B'']] \<and>
   1 < length (pagesWithContent three_full_pages) \<and>
   fst (savePNG all_ok three_full_pages) =
     [PromptOpen,
      Render [Line None ''A''], WriteFile ''/tmp/out/dokument_seite_1.png'' [Line None ''A''],
      Render [Line None ''B''], WriteFile ''/tmp/out/dokument_seite_2.png'' [Line None ''B''],
      Render [ImageLine (Some photo)], WriteFile ''/tmp/out/dokument_seite_3.png'' [ImageLine (Some photo)]]"
proof -
  note one = savePNG_selection [of only_page_two all_ok "[Line None ''B'']" "''/tmp/out.png''"]
  note many = savePNG_selection [of three_full_pages all_ok _ _ "''/tmp/out''"]
  have w: "written_events ''/tmp/out'' three_full_pages =
     [Render [Line None ''A''], WriteFile ''/tmp/out/dokument_seite_1.png'' [Line None ''A''],
      Render [Line None ''B''], WriteFile ''/tmp/out/dokument_seite_2.png'' [Line None ''B''],
      Render [ImageLine (Some photo)], WriteFile ''/tmp/out/dokument_seite_3.png'' [ImageLine (Some photo)]]"
    by (simp add: written_events_def three_full_pages_def page_fileName_def string_of_nat.simps)
  have len: "1 < length (pagesWithContent three_full_pages)"
    unfolding pagesWithContent_three_full_pages by (simp add: three_full_pages_def)
  from one have "fst (savePNG all_ok only_page_two) =
     [Render [Line None ''B''], PromptSave ''dokument.png'',
      WriteFile ''/tmp/out.png'' [Line None ''B'']]"
    by (simp add: pagesWithContent_only_page_two all_ok_def)
  moreover from many len have "fst (savePNG all_ok three_full_pages) =
      PromptOpen # written_events ''/tmp/out'' three_full_pages"
    by (simp add: pagesWithContent_three_full_pages all_ok_def)
  ultimately show ?thesis using len w by (simp add: pagesWithContent_only_page_two)
qed

text \<open>
  Claim C8, amended. \<open>savePNG\<close> never ends with an exception. When a dialog rejects
  or a write fails, the failure is logged and every qualifying page is rendered
  again and downloaded, with a pause of 500 ms after each download but the last.
  When a dialog is cancelled nothing is written and nothing is downloaded.
\<close>

theorem savePNG_fallback_on_failure:
  "snd (savePNG c ps) = Inr () \<and>
   (pagesWithContent ps = [editor] \<and> canvas_ok c editor \<longrightarrow>
      (dialog_save c = DialogError \<longrightarrow>
         fst (savePNG c ps) =
           [Render editor, PromptSave ''dokument.png'', LogError DialogFailed] @
           download_events [editor]) \<and>
      (dialog_save c = Chosen filePath \<and> filePath \<noteq> [] \<and> \<not> writeFile_ok c filePath \<longrightarrow>
         fst (savePNG c ps) =
           [Render editor, PromptSave ''dokument.png'', WriteFile filePath editor,
            LogError (WriteFailed filePath)] @ download_events [editor]) \<and>
      (dialog_save c = Cancelled \<longrightarrow>
         fst (savePNG c ps) = [Render editor, PromptSave ''dokument.png''])) \<and>
   (1 < length (pagesWithContent ps) \<and> (\<forall>e \<in> set (pagesWithContent ps). canvas_ok c e) \<longrightarrow>
      (dialog_open c = DialogError \<longrightarrow>
         fst (savePNG c ps) =
           PromptOpen # LogError DialogFailed # download_events (pagesWithContent ps)) \<and>
      (dialog_open c = Chosen folderPath \<and> folderPath \<noteq> [] \<and>
       k < length (pagesWithContent ps) \<and>
       \<not> writeFile_ok c (folderPath @ ''/'' @ page_fileName k) \<longrightarrow>
         (\<exists>evs path. \<not> writeFile_ok c path \<and>
            fst (savePNG c ps) =
              PromptOpen # evs @ LogError (WriteFailed path) #
                download_events (pagesWithContent ps))) \<and>
      (dialog_open c = Cancelled \<longrightarrow> fst (savePNG c ps) = [PromptOpen]))"
proof (intro conjI impI)
  show "snd (savePNG c ps) = Inr ()" by (rule savePNG_returns)
next
  assume a: "pagesWithContent ps = [editor] \<and> canvas_ok c editor"
  {
    assume "dialog_save c = DialogError"
    with a show "fst (savePNG c ps) =
           [Render editor, PromptSave ''dokument.png'', LogError DialogFailed] @
           download_events [editor]"
      using savePNG_single_page(5) [of ps editor c] by blast
  }
  {
    assume "dialog_save c = Chosen filePath \<and> filePath \<noteq> [] \<and> \<not> writeFile_ok c filePath"
    with a show "fst (savePNG c ps) =
           [Render editor, PromptSave ''dokument.png'', WriteFile filePath editor,
            LogError (WriteFailed filePath)] @ download_events [editor]"
      using savePNG_single_page(6) [of ps editor c filePath] by blast
  }
  {
    assume "dialog_save c = Cancelled"
    with a show "fst (savePNG c ps) = [Render editor, PromptSave ''dokument.png'']"
      using savePNG_single_page(4) [of ps editor c] by blast
  }
next
  assume a: "1 < length (pagesWithContent ps) \<and> (\<forall>e \<in> set (pagesWithContent ps). canvas_ok c e)"
  {
    assume "dialog_open c = DialogError"
    with a show "fst (savePNG c ps) =
           PromptOpen # LogError DialogFailed # download_events (pagesWithContent ps)"
      using savePNG_many_pages(5) [of ps c] by blast
  }
  {
    assume "dialog_open c = Chosen folderPath \<and> folderPath \<noteq> [] \<and>
       k < length (pagesWithContent ps) \<and>
       \<not> writeFile_ok c (folderPath @ ''/'' @ page_fileName k)"
    with a show "\<exists>evs path. \<not> writeFile_ok c path \<and>
            fst (savePNG c ps) =
              PromptOpen # evs @ LogError (WriteFailed path) #
                download_events (pagesWithContent ps)"
      using savePNG_many_pages(6) [of ps c folderPath k] by blast
  }
  {
    assume "dialog_open c = Cancelled"
    with a show "fst (savePNG c ps) = [PromptOpen]"
      using savePNG_many_pages(3) [of ps c] by blast
  }
qed

text \<open>
  The claim as stated fails for a cancelled save dialog: the page is rendered, the
  prompt is shown, and no download follows.
\<close>

theorem savePNG_cancel_counterexample:
  "pagesWithContent only_page_two = [[Line None ''B'']] \<and>
   dialog_save cancelled_save = Cancelled \<and>
   savePNG cancelled_save only_page_two =
     ([Render [Line None ''B''], PromptSave ''dokument.png''], Inr ())"
  by (simp add: savePNG_def savePNG_try_def savePNG_single_def pagesWithContent_only_page_two
      cancelled_save_def all_ok_def)

theorem savePNG_fallback_on_failure_witness:
  "1 < length (pagesWithContent three_full_pages) \<and>
   \<not> writeFile_ok second_write_fails (''/tmp/out'' @ ''/'' @ page_fileName 1) \<and>
   snd (savePNG second_write_fails three_full_pages) = Inr () \<and>
   (\<exists>evs path. fst (savePNG second_write_fails three_full_pages) =
      PromptOpen # evs @ LogError (WriteFailed path) #
        [Render [Line None ''A''], Download ''dokument_seite_1.png'' [Line None ''A''], Delay 500,
         Render [Line None ''B''], Download ''dokument_seite_2.png'' [Line None ''B''], Delay 500,
         Render [ImageLine (Some photo)], Download ''dokument_seite_3.png'' [ImageLine (Some photo)]])"
proof -
  have len: "1 < length (pagesWithContent three_full_pages)"
    unfolding pagesWithContent_three_full_pages by (simp add: three_full_pages_def)
  have bad: "\<not> writeFile_ok second_write_fails (''/tmp/out'' @ ''/'' @ page_fileName 1)"
    by (simp add: second_write_fails_def all_ok_def page_fileName_def string_of_nat.simps)
  have d: "download_events three_full_pages =
        [Render [Line None ''A''], Download ''dokument_seite_1.png'' [Line None ''A''], Delay 500,
         Render [Line None ''B''], Download ''dokument_seite_2.png'' [Line None ''B''], Delay 500,
         Render [ImageLine (Some photo)], Download ''dokument_seite_3.png'' [ImageLine (Some photo)]]"
    by (simp add: download_events_def three_full_pages_def page_fileName_def string_of_nat.simps)
  have ok: "\<forall>e \<in> set (pagesWithContent three_full_pages). canvas_ok second_write_fails e"
    by (simp add: second_write_fails_def all_ok_def)
  have open_dir: "dialog_open second_write_fails = Chosen ''/tmp/out''"
    by (simp add: second_write_fails_def all_ok_def)
  have k: "1 < length (pagesWithContent three_full_pages)" by (rule len)
  from savePNG_fallback_on_failure [of second_write_fails three_full_pages _ _ "''/tmp/out''" 1]
    len bad ok open_dir
  have "snd (savePNG second_write_fails three_full_pages) = Inr () \<and>
     (\<exists>evs path. \<not> writeFile_ok second_write_fails path \<and>
        fst (savePNG second_write_fails three_full_pages) =
          PromptOpen # evs @ LogError (WriteFailed path) #
            download_events (pagesWithContent three_full_pages))"
    by simp
  with len bad d show ?thesis
    by (auto simp: pagesWithContent_three_full_pages)
qed

end
